theory Spec2Isabelle
  imports Complex_Main "HOL-Library.Extended_Nat"
begin

section \<open>Configuration constants of \<^verbatim>\<open>self_drive.py\<close>\<close>

text \<open>
  The module-level constants, with the values the source assigns. The occupancy grid is a
  numpy array of 32-bit floats and the heading is a Python float; here both are real
  numbers, so the rounding of floating-point arithmetic is not part of the model.
\<close>

definition LIDAR_MOUNTING_OFFSET_DEG :: real where
  "LIDAR_MOUNTING_OFFSET_DEG = 0"

definition CELL_SIZE_MM :: real where
  "CELL_SIZE_MM = 50"

definition GRID_DIMENSION :: int where
  "GRID_DIMENSION = 80"

definition MAX_LIDAR_RANGE_MM_DISPLAY :: real where
  "MAX_LIDAR_RANGE_MM_DISPLAY = 4000"

definition HIT_INCREMENT :: real where
  "HIT_INCREMENT = 25"

definition DECAY_RATE :: real where
  "DECAY_RATE = 9 / 10"

definition MAX_CELL_VALUE :: real where
  "MAX_CELL_VALUE = 150"

definition RENDER_THRESHOLD :: real where
  "RENDER_THRESHOLD = 40"

definition CLEAR_BELOW_VALUE :: real where
  "CLEAR_BELOW_VALUE = 10"

definition ACTION_DURATION_S :: real where
  "ACTION_DURATION_S = 6 / 5"

section \<open>Occupancy grid\<close>

text \<open>
  A cell is a (row, column) pair of Python integers. The array
  \<^verbatim>\<open>occupancy_grid\<close> is modelled as a function from cells to values; the source
  reads and writes it only behind a bounds check, so only the values at cells inside
  the grid matter.
\<close>

type_synonym cell = "int \<times> int"
type_synonym grid = "cell \<Rightarrow> real"

definition grid_center_x_cell :: int where
  "grid_center_x_cell = GRID_DIMENSION div 2"

definition grid_center_y_cell :: int where
  "grid_center_y_cell = GRID_DIMENSION div 2"

definition in_grid :: "cell \<Rightarrow> bool" where
  "in_grid rc = (case rc of (r, c) \<Rightarrow>
     0 \<le> r \<and> r < GRID_DIMENSION \<and> 0 \<le> c \<and> c < GRID_DIMENSION)"

definition zero_grid :: grid where
  "zero_grid = (\<lambda>rc. 0)"

text \<open>Python's \<^verbatim>\<open>x % m\<close> on floats with a positive modulus, and \<^verbatim>\<open>int(x)\<close>,
  which truncates towards zero.\<close>

definition py_mod :: "real \<Rightarrow> real \<Rightarrow> real" where
  "py_mod x m = x - m * of_int \<lfloor>x / m\<rfloor>"

definition py_int :: "real \<Rightarrow> int" where
  "py_int x = (if 0 \<le> x then \<lfloor>x\<rfloor> else \<lceil>x\<rceil>)"

definition radians :: "real \<Rightarrow> real" where
  "radians d = d * (pi / 180)"

text \<open>The two statements that open \<^verbatim>\<open>_update_occupancy_grid\<close> and close
  \<^verbatim>\<open>_process_queued_data\<close>: scale every cell, then clear the small ones.\<close>

definition decay_cell :: "real \<Rightarrow> real" where
  "decay_cell v = (let w = v * DECAY_RATE in if w < CLEAR_BELOW_VALUE then 0 else w)"

definition decay :: "grid \<Rightarrow> grid" where
  "decay g = (\<lambda>rc. decay_cell (g rc))"

text \<open>\<^verbatim>\<open>_polar_to_cartesian_map_frame\<close>, with the heading
  \<^verbatim>\<open>robot_orientation_map_deg\<close> as first argument.\<close>

definition angle_in_map_coords_deg :: "real \<Rightarrow> real \<Rightarrow> real" where
  "angle_in_map_coords_deg heading angle_deg_raw =
     py_mod (py_mod (angle_deg_raw + LIDAR_MOUNTING_OFFSET_DEG) 360 + heading) 360"

definition polar_to_cartesian_map_frame :: "real \<Rightarrow> real \<Rightarrow> real \<Rightarrow> real \<times> real" where
  "polar_to_cartesian_map_frame heading angle_deg_raw distance_mm =
     (let angle_in_map_coords_rad = radians (angle_in_map_coords_deg heading angle_deg_raw)
      in (distance_mm * sin angle_in_map_coords_rad,
          distance_mm * cos angle_in_map_coords_rad))"

definition grid_col :: "real \<Rightarrow> int" where
  "grid_col x_map_mm = py_int (of_int grid_center_x_cell + x_map_mm / CELL_SIZE_MM + 1 / 2)"

definition grid_row :: "real \<Rightarrow> int" where
  "grid_row y_map_mm = py_int (of_int grid_center_y_cell - y_map_mm / CELL_SIZE_MM + 1 / 2)"

text \<open>
  One pass of the loop body of \<^verbatim>\<open>_update_occupancy_grid\<close>. A point of the packet
  that does not split into two numbers is \<open>None\<close> (the source skips it); a parsed
  point is \<open>Some (angle_deg_raw, dist_mm)\<close>.
\<close>

definition integrate_point :: "real \<Rightarrow> grid \<Rightarrow> (real \<times> real) option \<Rightarrow> grid" where
  "integrate_point heading g p =
     (case p of
        None \<Rightarrow> g
      | Some (angle_deg_raw, dist_mm) \<Rightarrow>
          if \<not> (0 < dist_mm \<and> dist_mm \<le> MAX_LIDAR_RANGE_MM_DISPLAY) then g
          else
            (case polar_to_cartesian_map_frame heading angle_deg_raw dist_mm of
               (x_map_mm, y_map_mm) \<Rightarrow>
                 let c = grid_col x_map_mm; r = grid_row y_map_mm
                 in if 0 \<le> r \<and> r < GRID_DIMENSION \<and> 0 \<le> c \<and> c < GRID_DIMENSION
                    then g((r, c) := min (g (r, c) + HIT_INCREMENT) MAX_CELL_VALUE)
                    else g))"

definition update_occupancy_grid :: "real \<Rightarrow> grid \<Rightarrow> (real \<times> real) option list \<Rightarrow> grid" where
  "update_occupancy_grid heading g points = foldl (integrate_point heading) (decay g) points"

definition cells_in_range :: "grid \<Rightarrow> bool" where
  "cells_in_range g = (\<forall>rc. in_grid rc \<longrightarrow> 0 \<le> g rc \<and> g rc \<le> MAX_CELL_VALUE)"

section \<open>Path planner\<close>

text \<open>
  \<^verbatim>\<open>current_logical_robot_cell_on_path\<close> is assigned once, in the constructor, to the
  grid centre and never again, so it is a constant here.
\<close>

definition current_logical_robot_cell_on_path :: cell where
  "current_logical_robot_cell_on_path = (grid_center_y_cell, grid_center_x_cell)"

definition is_valid_and_clear :: "grid \<Rightarrow> cell \<Rightarrow> bool" where
  "is_valid_and_clear g rc = (case rc of (r, c) \<Rightarrow>
     0 \<le> r \<and> r < GRID_DIMENSION \<and> 0 \<le> c \<and> c < GRID_DIMENSION \<and> g (r, c) < RENDER_THRESHOLD)"

definition heuristic :: "cell \<Rightarrow> cell \<Rightarrow> nat" where
  "heuristic a goal = nat \<bar>fst a - fst goal\<bar> + nat \<bar>snd a - snd goal\<bar>"

text \<open>
  The open set is a \<^verbatim>\<open>heapq\<close> of tuples \<^verbatim>\<open>(f_score, count, cell)\<close>. Python
  compares tuples lexicographically, and \<^verbatim>\<open>heappop\<close> returns the least element of
  the heap. The model keeps the elements in a list, pushes at the end and pops by
  removing the least element; the layout of the binary heap is not modelled. Scores
  are extended naturals, \<open>\<infinity>\<close> for \<^verbatim>\<open>float('inf')\<close>.
\<close>

type_synonym entry = "enat \<times> nat \<times> cell"

definition entry_less :: "entry \<Rightarrow> entry \<Rightarrow> bool" where
  "entry_less a b =
     (case a of (fa, ka, (ra, ca)) \<Rightarrow> case b of (fb, kb, (rb, cb)) \<Rightarrow>
        fa < fb \<or> (fa = fb \<and> (ka < kb \<or> (ka = kb \<and> (ra < rb \<or> (ra = rb \<and> ca < cb))))))"

fun heap_min :: "entry \<Rightarrow> entry list \<Rightarrow> entry" where
  "heap_min m [] = m"
| "heap_min m (x # xs) = heap_min (if entry_less x m then x else m) xs"

definition heappush :: "entry list \<Rightarrow> entry \<Rightarrow> entry list" where
  "heappush h e = h @ [e]"

definition heappop :: "entry list \<Rightarrow> (entry \<times> entry list) option" where
  "heappop h = (case h of [] \<Rightarrow> None | x # xs \<Rightarrow> (let m = heap_min x xs in Some (m, remove1 m h)))"

record astar =
  open_set :: "entry list"
  count :: nat
  came_from :: "cell \<rightharpoonup> cell"
  g_score :: "cell \<Rightarrow> enat"
  f_score :: "cell \<Rightarrow> enat"
  open_set_hash :: "cell set"
  path_found :: bool

definition max_iterations :: real where
  "max_iterations = of_int (GRID_DIMENSION * GRID_DIMENSION) * (3 / 2)"

definition astar_init :: "cell \<Rightarrow> cell \<Rightarrow> astar" where
  "astar_init start_cell goal =
     \<lparr> open_set = heappush [] (enat (heuristic start_cell goal), 0, start_cell),
       count = 0,
       came_from = Map.empty,
       g_score = (\<lambda>rc. \<infinity>)(start_cell := 0),
       f_score = (\<lambda>rc. \<infinity>)(start_cell := enat (heuristic start_cell goal)),
       open_set_hash = {start_cell},
       path_found = False \<rparr>"

text \<open>The body of the loop over the four neighbour offsets.\<close>

definition explore_neighbor :: "grid \<Rightarrow> cell \<Rightarrow> cell \<Rightarrow> astar \<Rightarrow> int \<times> int \<Rightarrow> astar" where
  "explore_neighbor g goal current_cell s d =
     (let neighbor = (fst current_cell + fst d, snd current_cell + snd d) in
      if is_valid_and_clear g neighbor then
        (let tentative_g_score = g_score s current_cell + 1 in
         if tentative_g_score < g_score s neighbor then
           (let s1 = s\<lparr> came_from := (came_from s)(neighbor \<mapsto> current_cell),
                        g_score := (g_score s)(neighbor := tentative_g_score),
                        f_score := (f_score s)(neighbor :=
                                      tentative_g_score + enat (heuristic neighbor goal)) \<rparr>
            in if neighbor \<notin> open_set_hash s1 then
                 s1\<lparr> count := count s1 + 1,
                     open_set := heappush (open_set s1) (f_score s1 neighbor, count s1 + 1, neighbor),
                     open_set_hash := insert neighbor (open_set_hash s1) \<rparr>
               else s1)
         else s)
      else s)"

definition neighbor_offsets :: "(int \<times> int) list" where
  "neighbor_offsets = [(0, 1), (0, -1), (1, 0), (-1, 0)]"

datatype planner_error = KeyError

text \<open>
  The \<^verbatim>\<open>while open_set and iterations < max_iterations\<close> loop. Removing a cell that
  is not in \<^verbatim>\<open>open_set_hash\<close> raises \<^verbatim>\<open>KeyError\<close> in Python.
\<close>

function astar_loop :: "grid \<Rightarrow> cell \<Rightarrow> nat \<Rightarrow> astar \<Rightarrow> planner_error + astar" where
  "astar_loop g goal iterations s =
     (if open_set s \<noteq> [] \<and> real iterations < max_iterations then
        (case heappop (open_set s) of
           None \<Rightarrow> Inr s
         | Some ((current_f_val, k, current_cell), rest) \<Rightarrow>
             if current_cell \<notin> open_set_hash s then Inl KeyError
             else
               (let s1 = s\<lparr> open_set := rest,
                            open_set_hash := open_set_hash s - {current_cell} \<rparr>
                in if current_cell = goal then Inr (s1\<lparr> path_found := True \<rparr>)
                   else astar_loop g goal (iterations + 1)
                          (foldl (explore_neighbor g goal current_cell) s1 neighbor_offsets)))
      else Inr s)"
  by pat_completeness auto
termination
  by (relation "measure (\<lambda>(g, goal, iterations, s). 9600 - iterations)")
     (auto simp: max_iterations_def GRID_DIMENSION_def)

declare astar_loop.simps [simp del]

text \<open>The path reconstruction \<^verbatim>\<open>while temp in came_from\<close>; it has no bound of its
  own, so the model returns \<open>None\<close> when it does not end.\<close>

partial_function (option) reconstruct :: "(cell \<rightharpoonup> cell) \<Rightarrow> cell \<Rightarrow> cell list \<Rightarrow> cell list option" where
  "reconstruct cf temp path =
     (case cf temp of None \<Rightarrow> Some path | Some parent \<Rightarrow> reconstruct cf parent (path @ [temp]))"

declare reconstruct.simps [code]

datatype plan_outcome =
    Planning_succeeded "cell list"
  | Planning_failed string
  | Planning_raised planner_error

definition plan_path :: "grid \<Rightarrow> cell option \<Rightarrow> plan_outcome option" where
  "plan_path g navigation_goal =
     (let start_cell = current_logical_robot_cell_on_path in
      case navigation_goal of
        None \<Rightarrow> Some (Planning_failed ''Goal not set.'')
      | Some current_goal_cell \<Rightarrow>
          if \<not> is_valid_and_clear g current_goal_cell then Some (Planning_failed ''Goal blocked.'')
          else
            (case astar_loop g current_goal_cell 0 (astar_init start_cell current_goal_cell) of
               Inl e \<Rightarrow> Some (Planning_raised e)
             | Inr s \<Rightarrow>
                 if path_found s then
                   (case reconstruct (came_from s) current_goal_cell [] of
                      None \<Rightarrow> None
                    | Some path \<Rightarrow>
                        (let path = rev path;
                             path = (if path \<noteq> [] \<and> hd path = start_cell then tl path else path)
                         in Some (Planning_succeeded path)))
                 else Some (Planning_failed ''No path found by A*.'')))"

section \<open>Navigation controller\<close>

datatype nav_state =
    NAV_STATE_IDLE
  | NAV_STATE_PLANNING
  | NAV_STATE_AWAITING_NEXT_STEP
  | NAV_STATE_TURNING_LEFT
  | NAV_STATE_TURNING_RIGHT
  | NAV_STATE_MOVING_FORWARD
  | NAV_STATE_REACHED_GOAL
  | NAV_STATE_PATH_BLOCKED
  | NAV_STATE_NO_PATH_FOUND
  | NAV_STATE_ROBOT_CMD_ERROR

text \<open>
  What the TCP exchange inside \<^verbatim>\<open>send_command\<close> does: it goes through, or it raises
  one of the exceptions the three \<^verbatim>\<open>except\<close> clauses name. The outcome is an input
  of the model.
\<close>

datatype transport = Delivered | Socket_timeout | Connection_refused | Other_exception

text \<open>The callback a pending \<^verbatim>\<open>root.after\<close> timer will run.\<close>

datatype callback = On_action_completed | On_action_completed_no_command

type_synonym packet = "(real \<times> real) option list"

text \<open>
  The fields of \<^verbatim>\<open>LidarMapViewer\<close> that the grid, the planner and the controller use.
  \<open>planner_thread_alive\<close> stands for
  \<^verbatim>\<open>path_planner_thread and path_planner_thread.is_alive()\<close>, \<open>action_end_time\<close> for
  \<^verbatim>\<open>current_action_info["end_time"]\<close>. \<open>robot_commands\<close> is not a field of the class:
  it records every connection \<^verbatim>\<open>send_command\<close> opens to the robot, in order,
  with its outcome.
\<close>

record viewer =
  occupancy_grid :: grid
  data_queue :: "packet list"
  is_udp_running :: bool
  navigation_goal_cell :: "cell option"
  current_path :: "cell list"
  navigation_state :: nav_state
  robot_orientation_map_deg :: real
  action_end_time :: real
  action_timer_id :: "callback option"
  planner_thread_alive :: bool
  last_command_sent_successful :: bool
  robot_commands :: "(string \<times> transport) list"

definition init_viewer :: viewer where
  "init_viewer =
     \<lparr> occupancy_grid = zero_grid,
       data_queue = [],
       is_udp_running = False,
       navigation_goal_cell = None,
       current_path = [],
       navigation_state = NAV_STATE_IDLE,
       robot_orientation_map_deg = 0,
       action_end_time = 0,
       action_timer_id = None,
       planner_thread_alive = False,
       last_command_sent_successful = True,
       robot_commands = [] \<rparr>"

definition handle_command_send_error :: "viewer \<Rightarrow> viewer" where
  "handle_command_send_error v =
     (let v1 = v\<lparr> last_command_sent_successful := False, action_timer_id := None \<rparr>
      in if navigation_state v1 \<notin>
              set [NAV_STATE_IDLE, NAV_STATE_REACHED_GOAL, NAV_STATE_NO_PATH_FOUND]
         then v1\<lparr> navigation_state := NAV_STATE_ROBOT_CMD_ERROR \<rparr>
         else v1)"

definition send_command :: "transport \<Rightarrow> string \<Rightarrow> viewer \<Rightarrow> bool \<times> viewer" where
  "send_command tr command v =
     (if navigation_state v = NAV_STATE_IDLE \<and> command \<notin> set [''S''] then (False, v)
      else
        (let v1 = v\<lparr> robot_commands := robot_commands v @ [(command, tr)] \<rparr>
         in case tr of
              Delivered \<Rightarrow> (True, v1\<lparr> last_command_sent_successful := True \<rparr>)
            | Socket_timeout \<Rightarrow> (False, handle_command_send_error v1)
            | Connection_refused \<Rightarrow> (False, handle_command_send_error v1)
            | Other_exception \<Rightarrow> (False, handle_command_send_error v1)))"

definition stop_udp_listener :: "viewer \<Rightarrow> viewer" where
  "stop_udp_listener v = (if \<not> is_udp_running v then v else v\<lparr> is_udp_running := False \<rparr>)"

text \<open>\<open>bind_ok\<close> says whether creating and binding the UDP socket goes through; the
  grid and the heading are reset before the socket is touched.\<close>

definition start_udp_listener :: "bool \<Rightarrow> viewer \<Rightarrow> viewer" where
  "start_udp_listener bind_ok v =
     (if is_udp_running v then v
      else
        (let v1 = v\<lparr> occupancy_grid := zero_grid, robot_orientation_map_deg := 0 \<rparr>
         in if bind_ok then v1\<lparr> is_udp_running := True \<rparr>
            else v1\<lparr> is_udp_running := False \<rparr>))"

definition toggle_connection :: "transport \<Rightarrow> string \<Rightarrow> bool \<Rightarrow> viewer \<Rightarrow> viewer" where
  "toggle_connection tr ip_from_user bind_ok v =
     (if is_udp_running v then
        (let v1 = (if navigation_state v \<notin>
                        set [NAV_STATE_IDLE, NAV_STATE_REACHED_GOAL, NAV_STATE_NO_PATH_FOUND,
                             NAV_STATE_ROBOT_CMD_ERROR]
                   then snd (send_command tr ''S'' v) else v);
             v2 = stop_udp_listener v1
         in v2\<lparr> navigation_state := NAV_STATE_IDLE,
                navigation_goal_cell := None,
                current_path := [],
                robot_orientation_map_deg := 0,
                action_timer_id := None \<rparr>)
      else if ip_from_user = [] then v
      else start_udp_listener bind_ok v)"

text \<open>The receive thread: one datagram, with the oldest packet dropped from a full
  queue (\<^verbatim>\<open>queue.Queue(maxsize=5)\<close>).\<close>

definition udp_receive :: "packet \<Rightarrow> viewer \<Rightarrow> viewer" where
  "udp_receive p v =
     (if is_udp_running v then
        v\<lparr> data_queue := (if length (data_queue v) \<ge> 5 then tl (data_queue v) else data_queue v) @ [p] \<rparr>
      else v)"

fun drain_queue :: "nat \<Rightarrow> viewer \<Rightarrow> bool \<Rightarrow> viewer \<times> bool" where
  "drain_queue 0 v new_data = (v, new_data)"
| "drain_queue (Suc n) v new_data =
     (case data_queue v of
        [] \<Rightarrow> (v, new_data)
      | p # ps \<Rightarrow>
          drain_queue n
            (v\<lparr> data_queue := ps,
                occupancy_grid :=
                  update_occupancy_grid (robot_orientation_map_deg v) (occupancy_grid v) p \<rparr>)
            True)"

definition process_queued_data :: "viewer \<Rightarrow> viewer" where
  "process_queued_data v =
     (if \<not> is_udp_running v \<and> data_queue v = [] then v
      else
        (case drain_queue 2 v False of
           (v1, new_data_processed_this_cycle) \<Rightarrow>
             if \<not> new_data_processed_this_cycle \<and> is_udp_running v1
             then v1\<lparr> occupancy_grid := decay (occupancy_grid v1) \<rparr>
             else v1))"

definition path_planning_succeeded :: "transport \<Rightarrow> cell list \<Rightarrow> viewer \<Rightarrow> viewer" where
  "path_planning_succeeded tr path v =
     (let v1 = v\<lparr> current_path := path \<rparr>
      in if current_path v1 \<noteq> [] then v1\<lparr> navigation_state := NAV_STATE_AWAITING_NEXT_STEP \<rparr>
         else if navigation_goal_cell v1 = Some current_logical_robot_cell_on_path
              then snd (send_command tr ''S'' (v1\<lparr> navigation_state := NAV_STATE_REACHED_GOAL \<rparr>))
              else v1\<lparr> navigation_state := NAV_STATE_NO_PATH_FOUND \<rparr>)"

definition path_planning_failed :: "viewer \<Rightarrow> viewer" where
  "path_planning_failed v = v\<lparr> navigation_state := NAV_STATE_NO_PATH_FOUND, current_path := [] \<rparr>"

text \<open>
  The planner thread, as one step: it plans on the goal and the grid as they are, hands
  the result to the matching callback and ends. A planner that raises ends without a
  callback; one whose reconstruction does not end stays alive.
\<close>

definition planner_finished :: "transport \<Rightarrow> viewer \<Rightarrow> viewer" where
  "planner_finished tr v =
     (if \<not> planner_thread_alive v then v
      else
        (case plan_path (occupancy_grid v) (navigation_goal_cell v) of
           None \<Rightarrow> v
         | Some (Planning_succeeded path) \<Rightarrow>
             path_planning_succeeded tr path (v\<lparr> planner_thread_alive := False \<rparr>)
         | Some (Planning_failed reason) \<Rightarrow>
             path_planning_failed (v\<lparr> planner_thread_alive := False \<rparr>)
         | Some (Planning_raised e) \<Rightarrow> v\<lparr> planner_thread_alive := False \<rparr>))"

text \<open>\<open>user_confirms\<close> is the answer to the "Navigation Busy" dialogue; \<open>clicked\<close> is
  the cell computed from the pointer position.\<close>

definition handle_map_click :: "bool \<Rightarrow> transport \<Rightarrow> cell \<Rightarrow> viewer \<Rightarrow> viewer" where
  "handle_map_click user_confirms tr clicked v =
     (if \<not> is_udp_running v then v
      else
        (let busy = navigation_state v \<in>
                      set [NAV_STATE_TURNING_LEFT, NAV_STATE_TURNING_RIGHT,
                           NAV_STATE_MOVING_FORWARD, NAV_STATE_PLANNING]
         in if busy \<and> \<not> user_confirms then v
            else
              (let v1 = (if busy
                         then (snd (send_command tr ''S'' v))
                                \<lparr> action_timer_id := None,
                                  navigation_state := NAV_STATE_IDLE,
                                  current_path := [] \<rparr>
                         else v)
               in if in_grid clicked then
                    (if occupancy_grid v1 clicked \<ge> RENDER_THRESHOLD then v1
                     else
                       (let v2 = v1\<lparr> navigation_goal_cell := Some clicked,
                                     current_path := [],
                                     navigation_state := NAV_STATE_PLANNING \<rparr>
                        in if planner_thread_alive v2 then v2
                           else v2\<lparr> planner_thread_alive := True \<rparr>))
                  else v1)))"

datatype step_kind = Cardinal real | Same_cell | Invalid_step

definition target_orientation :: "int \<Rightarrow> int \<Rightarrow> step_kind" where
  "target_orientation dr dc =
     (if dr = -1 \<and> dc = 0 then Cardinal 0
      else if dr = 1 \<and> dc = 0 then Cardinal 180
      else if dr = 0 \<and> dc = -1 then Cardinal 270
      else if dr = 0 \<and> dc = 1 then Cardinal 90
      else if dr = 0 \<and> dc = 0 then Same_cell
      else Invalid_step)"

definition angle_tolerance :: real where
  "angle_tolerance = 1"

text \<open>
  The choice between forward and a turn in \<^verbatim>\<open>_execute_navigation_step\<close>: the new
  navigation state and the command to send, or \<open>None\<close> for the "Unhandled turn" branch.
  \<open>command_to_send\<close> is still \<open>None\<close> where the source tests it.
\<close>

definition choose_action :: "real \<Rightarrow> real \<Rightarrow> (nav_state \<times> string) option" where
  "choose_action heading target_orientation_deg =
     (let command_to_send = (None :: string option);
          orientation_diff = py_mod (target_orientation_deg - heading + 360) 360;
          needs_turn = \<not> (\<bar>orientation_diff\<bar> < angle_tolerance
                           \<or> \<bar>orientation_diff - 360\<bar> < angle_tolerance)
      in if \<not> needs_turn then Some (NAV_STATE_MOVING_FORWARD, ''F'')
         else if (orientation_diff > 90 - angle_tolerance \<and> orientation_diff < 90 + angle_tolerance)
                 \<or> (orientation_diff > 180 - angle_tolerance
                     \<and> orientation_diff < 180 + angle_tolerance \<and> command_to_send = None)
         then Some (NAV_STATE_TURNING_RIGHT, ''R'')
         else if orientation_diff > 270 - angle_tolerance \<and> orientation_diff < 270 + angle_tolerance
         then Some (NAV_STATE_TURNING_LEFT, ''L'')
         else if orientation_diff > 180 - angle_tolerance
                 \<and> orientation_diff < 180 + angle_tolerance \<and> command_to_send = None
         then Some (NAV_STATE_TURNING_RIGHT, ''R'')
         else None)"

datatype nav_error = IndexError

text \<open>numpy accepts an index from \<open>-GRID_DIMENSION\<close> up to \<open>GRID_DIMENSION - 1\<close> on
  each axis and raises \<^verbatim>\<open>IndexError\<close> outside.\<close>

definition numpy_index_ok :: "cell \<Rightarrow> bool" where
  "numpy_index_ok rc = (case rc of (r, c) \<Rightarrow>
     - GRID_DIMENSION \<le> r \<and> r < GRID_DIMENSION \<and> - GRID_DIMENSION \<le> c \<and> c < GRID_DIMENSION)"

text \<open>The update of the logical state after a command went through.\<close>

definition update_logical_state :: "viewer \<Rightarrow> viewer" where
  "update_logical_state v =
     (if navigation_state v = NAV_STATE_MOVING_FORWARD then
        v\<lparr> current_path := tl (current_path v) \<rparr>
      else if navigation_state v = NAV_STATE_TURNING_LEFT then
        v\<lparr> robot_orientation_map_deg := py_mod (robot_orientation_map_deg v - 90 + 360) 360 \<rparr>
      else if navigation_state v = NAV_STATE_TURNING_RIGHT then
        v\<lparr> robot_orientation_map_deg := py_mod (robot_orientation_map_deg v + 90) 360 \<rparr>
      else v)"

text \<open>\<^verbatim>\<open>_execute_navigation_step\<close> at time \<open>now\<close>; \<open>tr\<close> is the outcome of the one
  command it may send.\<close>

definition execute_navigation_step :: "real \<Rightarrow> transport \<Rightarrow> viewer \<Rightarrow> nav_error + viewer" where
  "execute_navigation_step now tr v =
     (if navigation_state v \<in>
           set [NAV_STATE_IDLE, NAV_STATE_PLANNING, NAV_STATE_REACHED_GOAL,
                NAV_STATE_NO_PATH_FOUND, NAV_STATE_PATH_BLOCKED, NAV_STATE_ROBOT_CMD_ERROR]
      then Inr v
      else if now < action_end_time v then Inr v
      else
        (let current_robot_pos_cell = current_logical_robot_cell_on_path in
         case current_path v of
           [] \<Rightarrow>
             (let v1 =
                (if navigation_goal_cell v \<noteq> None
                    \<and> Some current_robot_pos_cell = navigation_goal_cell v
                 then v\<lparr> navigation_state := NAV_STATE_REACHED_GOAL \<rparr>
                 else if navigation_state v \<noteq> NAV_STATE_PATH_BLOCKED
                 then v\<lparr> navigation_state := NAV_STATE_NO_PATH_FOUND \<rparr>
                 else v)
              in Inr (v1\<lparr> current_path := [] \<rparr>))
         | next_cell_in_world # rest \<Rightarrow>
             if \<not> is_valid_and_clear (occupancy_grid v) next_cell_in_world then
               (if \<not> numpy_index_ok next_cell_in_world then Inl IndexError
                else
                  (let v1 = snd (send_command tr ''S'' v);
                       v2 = v1\<lparr> navigation_state := NAV_STATE_PATH_BLOCKED, current_path := [] \<rparr>
                   in if \<not> planner_thread_alive v2
                      then Inr (v2\<lparr> navigation_state := NAV_STATE_PLANNING,
                                    planner_thread_alive := True \<rparr>)
                      else Inr v2))
             else
               (let dr = fst next_cell_in_world - fst current_robot_pos_cell;
                    dc = snd next_cell_in_world - snd current_robot_pos_cell
                in case target_orientation dr dc of
                     Same_cell \<Rightarrow>
                       Inr (v\<lparr> current_path := rest,
                               navigation_state := NAV_STATE_AWAITING_NEXT_STEP,
                               action_timer_id := Some On_action_completed_no_command \<rparr>)
                   | Invalid_step \<Rightarrow>
                       Inr ((snd (send_command tr ''S'' v))
                              \<lparr> navigation_state := NAV_STATE_PATH_BLOCKED, current_path := [] \<rparr>)
                   | Cardinal target_orientation_deg \<Rightarrow>
                       (let action_end_time' = now + ACTION_DURATION_S in
                        case choose_action (robot_orientation_map_deg v) target_orientation_deg of
                          None \<Rightarrow>
                            Inr ((snd (send_command tr ''S'' v))
                                   \<lparr> navigation_state := NAV_STATE_PATH_BLOCKED,
                                     current_path := [] \<rparr>)
                        | Some (new_state, command_to_send) \<Rightarrow>
                            (case send_command tr command_to_send
                                    (v\<lparr> navigation_state := new_state \<rparr>) of
                               (True, v1) \<Rightarrow>
                                 Inr ((update_logical_state v1)
                                        \<lparr> action_end_time := action_end_time',
                                          action_timer_id := Some On_action_completed \<rparr>)
                             | (False, v1) \<Rightarrow> Inr v1)))))"

definition periodic_update :: "real \<Rightarrow> transport \<Rightarrow> viewer \<Rightarrow> nav_error + viewer" where
  "periodic_update now tr v =
     (let v1 = process_queued_data v
      in if is_udp_running v1 then execute_navigation_step now tr v1 else Inr v1)"

definition on_action_completed :: "transport \<Rightarrow> viewer \<Rightarrow> viewer" where
  "on_action_completed tr v =
     (let v1 = v\<lparr> action_timer_id := None \<rparr>
      in if \<not> last_command_sent_successful v1 then v1
         else
           (case send_command tr ''S'' v1 of
              (False, v2) \<Rightarrow> v2
            | (True, v2) \<Rightarrow>
                if navigation_state v2 \<in>
                     set [NAV_STATE_MOVING_FORWARD, NAV_STATE_TURNING_LEFT,
                          NAV_STATE_TURNING_RIGHT, NAV_STATE_AWAITING_NEXT_STEP]
                then (if current_path v2 = []
                         \<and> navigation_goal_cell v2 = Some current_logical_robot_cell_on_path
                      then v2\<lparr> navigation_state := NAV_STATE_REACHED_GOAL \<rparr>
                      else v2\<lparr> navigation_state := NAV_STATE_AWAITING_NEXT_STEP \<rparr>)
                else v2))"

definition on_action_completed_no_command :: "viewer \<Rightarrow> viewer" where
  "on_action_completed_no_command v =
     (let v1 = v\<lparr> action_timer_id := None \<rparr>
      in if navigation_state v1 \<notin>
              set [NAV_STATE_REACHED_GOAL, NAV_STATE_PATH_BLOCKED, NAV_STATE_NO_PATH_FOUND,
                   NAV_STATE_PLANNING, NAV_STATE_IDLE, NAV_STATE_ROBOT_CMD_ERROR]
         then v1\<lparr> navigation_state := NAV_STATE_AWAITING_NEXT_STEP \<rparr>
         else v1)"

text \<open>The pending timer expires and Tk runs its callback.\<close>

definition timer_fires :: "transport \<Rightarrow> viewer \<Rightarrow> viewer" where
  "timer_fires tr v =
     (case action_timer_id v of
        None \<Rightarrow> v
      | Some On_action_completed \<Rightarrow> on_action_completed tr v
      | Some On_action_completed_no_command \<Rightarrow> on_action_completed_no_command v)"

text \<open>The events that drive the viewer, and a run of the viewer over a list of them.\<close>

datatype event =
    Toggle_connection transport string bool
  | Udp_receive packet
  | Map_click bool transport cell
  | Planner_finished transport
  | Periodic_update real transport
  | Timer_fires transport

fun apply_event :: "event \<Rightarrow> viewer \<Rightarrow> nav_error + viewer" where
  "apply_event (Toggle_connection tr ip bind_ok) v = Inr (toggle_connection tr ip bind_ok v)"
| "apply_event (Udp_receive p) v = Inr (udp_receive p v)"
| "apply_event (Map_click user_confirms tr clicked) v = Inr (handle_map_click user_confirms tr clicked v)"
| "apply_event (Planner_finished tr) v = Inr (planner_finished tr v)"
| "apply_event (Periodic_update now tr) v = periodic_update now tr v"
| "apply_event (Timer_fires tr) v = Inr (timer_fires tr v)"

fun run_events :: "event list \<Rightarrow> viewer \<Rightarrow> nav_error + viewer" where
  "run_events [] v = Inr v"
| "run_events (e # es) v = (case apply_event e v of Inl err \<Rightarrow> Inl err | Inr v1 \<Rightarrow> run_events es v1)"

section \<open>Routes and the planner's invariant\<close>

text \<open>
  Two cells are adjacent when they are one step apart along a row or a column. A walk
  from a cell is a list of cells, each adjacent to the one before it; a route to a goal
  is a walk from the grid centre whose last cell is the goal.
\<close>

definition adjacent :: "cell \<Rightarrow> cell \<Rightarrow> bool" where
  "adjacent a b = (\<bar>fst a - fst b\<bar> + \<bar>snd a - snd b\<bar> = 1)"

fun walk :: "cell \<Rightarrow> cell list \<Rightarrow> bool" where
  "walk a [] = True"
| "walk a (c # cs) = (adjacent a c \<and> walk c cs)"

text \<open>
  What holds of the search state at every turn of the loop: the hash holds exactly the
  cells of the heap, each once; every cell of the heap is the start or has a parent;
  a cell with a parent is valid and clear, adjacent to its parent, and has the larger
  g-score; the parent is the start or has a parent itself.
\<close>

definition cell_of :: "entry \<Rightarrow> cell" where
  "cell_of e = snd (snd e)"

definition planner_inv :: "grid \<Rightarrow> cell \<Rightarrow> astar \<Rightarrow> bool" where
  "planner_inv g start s \<longleftrightarrow>
     open_set_hash s = cell_of ` set (open_set s)
     \<and> distinct (map cell_of (open_set s))
     \<and> (\<forall>c \<in> open_set_hash s. c = start \<or> came_from s c \<noteq> None)
     \<and> (\<forall>c p. came_from s c = Some p \<longrightarrow>
           is_valid_and_clear g c \<and> adjacent p c
           \<and> (p = start \<or> came_from s p \<noteq> None)
           \<and> g_score s p < g_score s c)
     \<and> g_score s start = 0"

text \<open>
  The search on a grid without obstacles. A cell lies between the start and the goal
  when a shortest route from the start to the goal passes through it. A cell is
  discovered once it has a finite g-score, and closed_cell once it has been discovered and
  has left the heap. \<open>dist1\<close> is the distance along one axis.
\<close>

definition in_rect :: "cell \<Rightarrow> cell \<Rightarrow> cell \<Rightarrow> bool" where
  "in_rect start goal c \<longleftrightarrow> heuristic start c + heuristic c goal = heuristic start goal"

definition discovered :: "astar \<Rightarrow> cell \<Rightarrow> bool" where
  "discovered s c \<longleftrightarrow> g_score s c \<noteq> \<infinity>"

definition closed_cell :: "astar \<Rightarrow> cell \<Rightarrow> bool" where
  "closed_cell s c \<longleftrightarrow> discovered s c \<and> c \<notin> open_set_hash s"

definition count_of :: "entry \<Rightarrow> nat" where
  "count_of e = fst (snd e)"

definition dist1 :: "int \<Rightarrow> int \<Rightarrow> nat" where
  "dist1 a b = nat \<bar>a - b\<bar>"

text \<open>
  On a grid without obstacles every g-score the search assigns is the Manhattan distance
  from the start, every entry of the heap carries the f-score of its cell and its own
  count, and the number of discovered cells follows the counter. Among the entries
  between start and goal, which all carry the least f-score, the counts grow with the
  distance from the start, so the heap hands them out level by level: \<open>bfs_inv\<close> holds
  at the head of the loop, \<open>mid_inv\<close> while the neighbours of the popped cell are
  explored, \<open>P\<close> being the neighbours seen so far.
\<close>

definition empty_setup :: "grid \<Rightarrow> cell \<Rightarrow> cell \<Rightarrow> bool" where
  "empty_setup g start goal \<longleftrightarrow>
     (\<forall>c. in_grid c \<longrightarrow> g c < RENDER_THRESHOLD) \<and> in_grid start \<and> in_grid goal"

definition exact_scores :: "cell \<Rightarrow> astar \<Rightarrow> bool" where
  "exact_scores start s \<longleftrightarrow>
     (\<forall>c. discovered s c \<longrightarrow> g_score s c = enat (heuristic start c) \<and> in_grid c)"

definition entries_ok :: "cell \<Rightarrow> cell \<Rightarrow> astar \<Rightarrow> bool" where
  "entries_ok start goal s \<longleftrightarrow>
     (\<forall>e \<in> set (open_set s).
        discovered s (cell_of e)
        \<and> fst e = enat (heuristic start (cell_of e) + heuristic (cell_of e) goal)
        \<and> count_of e \<le> count s)
     \<and> distinct (map count_of (open_set s))"

definition counted :: "nat \<Rightarrow> astar \<Rightarrow> bool" where
  "counted iterations s \<longleftrightarrow>
     card {c. discovered s c} = count s + 1
     \<and> iterations + length (open_set s) = count s + 1"

definition bfs_inv :: "cell \<Rightarrow> cell \<Rightarrow> nat \<Rightarrow> astar \<Rightarrow> bool" where
  "bfs_inv start goal iterations s \<longleftrightarrow>
     exact_scores start s
     \<and> entries_ok start goal s
     \<and> (\<forall>e1 \<in> set (open_set s). \<forall>e2 \<in> set (open_set s).
          in_rect start goal (cell_of e1) \<and> in_rect start goal (cell_of e2) \<longrightarrow>
          (count_of e1 < count_of e2 \<longrightarrow>
             heuristic start (cell_of e1) \<le> heuristic start (cell_of e2))
          \<and> heuristic start (cell_of e2) \<le> heuristic start (cell_of e1) + 1)
     \<and> (\<forall>x. \<forall>e \<in> set (open_set s).
          in_rect start goal x \<and> closed_cell s x \<and> in_rect start goal (cell_of e) \<longrightarrow>
          heuristic start x \<le> heuristic start (cell_of e))
     \<and> (\<forall>x. in_rect start goal x
          \<and> (\<forall>e \<in> set (open_set s). in_rect start goal (cell_of e) \<longrightarrow>
                heuristic start x < heuristic start (cell_of e)) \<longrightarrow>
          closed_cell s x)
     \<and> (\<forall>c n. closed_cell s c \<and> adjacent c n \<and> in_grid n \<longrightarrow> discovered s n)
     \<and> (\<exists>e \<in> set (open_set s). in_rect start goal (cell_of e))
     \<and> counted iterations s"

definition mid_inv :: "cell \<Rightarrow> cell \<Rightarrow> nat \<Rightarrow> cell \<Rightarrow> cell set \<Rightarrow> astar \<Rightarrow> bool" where
  "mid_inv start goal iterations cur P s \<longleftrightarrow>
     in_rect start goal cur \<and> discovered s cur \<and> cur \<notin> open_set_hash s
     \<and> exact_scores start s
     \<and> entries_ok start goal s
     \<and> (\<forall>e \<in> set (open_set s). in_rect start goal (cell_of e) \<longrightarrow>
          heuristic start cur \<le> heuristic start (cell_of e)
          \<and> heuristic start (cell_of e) \<le> heuristic start cur + 1)
     \<and> (\<forall>e1 \<in> set (open_set s). \<forall>e2 \<in> set (open_set s).
          in_rect start goal (cell_of e1) \<and> in_rect start goal (cell_of e2)
          \<and> count_of e1 < count_of e2 \<longrightarrow>
          heuristic start (cell_of e1) \<le> heuristic start (cell_of e2))
     \<and> (\<forall>x. in_rect start goal x \<and> closed_cell s x \<longrightarrow> heuristic start x \<le> heuristic start cur)
     \<and> (\<forall>x. in_rect start goal x \<and> heuristic start x < heuristic start cur \<longrightarrow> closed_cell s x)
     \<and> (\<forall>c n. closed_cell s c \<and> c \<noteq> cur \<and> adjacent c n \<and> in_grid n \<longrightarrow> discovered s n)
     \<and> (\<forall>n \<in> P. in_grid n \<longrightarrow> discovered s n)
     \<and> counted (iterations + 1) s"

section \<open>Properties of the grid\<close>

lemma decay_cell_bounds:
  assumes "0 \<le> v" "v \<le> MAX_CELL_VALUE"
  shows "0 \<le> decay_cell v \<and> decay_cell v \<le> MAX_CELL_VALUE"
proof -
  have "v * DECAY_RATE \<le> v"
    using assms(1) by (simp add: DECAY_RATE_def)
  moreover have "0 \<le> v * DECAY_RATE"
    using assms(1) by (simp add: DECAY_RATE_def)
  ultimately show ?thesis
    using assms(2) by (simp add: decay_cell_def Let_def MAX_CELL_VALUE_def)
qed

lemma decay_in_range: "cells_in_range g \<Longrightarrow> cells_in_range (decay g)"
  by (simp add: cells_in_range_def decay_def decay_cell_bounds)

lemma hit_bounds:
  "0 \<le> v \<Longrightarrow> 0 \<le> min (v + HIT_INCREMENT) MAX_CELL_VALUE
     \<and> min (v + HIT_INCREMENT) MAX_CELL_VALUE \<le> MAX_CELL_VALUE"
  by (simp add: HIT_INCREMENT_def MAX_CELL_VALUE_def)

lemma integrate_point_in_range:
  "cells_in_range g \<Longrightarrow> cells_in_range (integrate_point heading g p)"
proof (cases p)
  case None
  then show "cells_in_range g \<Longrightarrow> ?thesis" by (simp add: integrate_point_def)
next
  case (Some ad)
  assume inv: "cells_in_range g"
  obtain a d where ad: "ad = (a, d)" by (cases ad)
  obtain x y where xy: "polar_to_cartesian_map_frame heading a d = (x, y)"
    by (cases "polar_to_cartesian_map_frame heading a d")
  have upd: "cells_in_range (g((r, c) := min (g (r, c) + HIT_INCREMENT) MAX_CELL_VALUE))"
    if "in_grid (r, c)" for r c
    using inv that hit_bounds [of "g (r, c)"] by (simp add: cells_in_range_def)
  show ?thesis
    using inv upd [of "grid_row y" "grid_col x"]
    by (simp add: integrate_point_def Some ad xy Let_def in_grid_def)
qed

lemma foldl_integrate_in_range:
  "cells_in_range g \<Longrightarrow> cells_in_range (foldl (integrate_point heading) g ps)"
  by (induction ps arbitrary: g) (simp_all add: integrate_point_in_range)

lemma update_occupancy_grid_in_range:
  "cells_in_range g \<Longrightarrow> cells_in_range (update_occupancy_grid heading g points)"
  by (simp add: update_occupancy_grid_def foldl_integrate_in_range decay_in_range)

lemma integrate_point_hit:
  assumes "0 < d" "d \<le> MAX_LIDAR_RANGE_MM_DISPLAY"
    and "polar_to_cartesian_map_frame heading a d = (x, y)"
    and "in_grid (grid_row y, grid_col x)"
  shows "integrate_point heading g (Some (a, d)) (grid_row y, grid_col x)
           = min (g (grid_row y, grid_col x) + HIT_INCREMENT) MAX_CELL_VALUE"
  using assms by (simp add: integrate_point_def Let_def in_grid_def)

lemma polar_eval_0_100: "polar_to_cartesian_map_frame 0 0 100 = (0, 100)"
  by (simp add: polar_to_cartesian_map_frame_def angle_in_map_coords_deg_def py_mod_def
      radians_def LIDAR_MOUNTING_OFFSET_DEG_def)

lemma grid_row_100: "grid_row 100 = 38"
  by (simp add: grid_row_def py_int_def grid_center_y_cell_def GRID_DIMENSION_def CELL_SIZE_MM_def)

lemma grid_col_0: "grid_col 0 = 40"
  by (simp add: grid_col_def py_int_def grid_center_x_cell_def GRID_DIMENSION_def CELL_SIZE_MM_def)

lemma polar_eval_0_4000: "polar_to_cartesian_map_frame 0 0 4000 = (0, 4000)"
  by (simp add: polar_to_cartesian_map_frame_def angle_in_map_coords_deg_def py_mod_def
      radians_def LIDAR_MOUNTING_OFFSET_DEG_def)

lemma grid_row_4000: "grid_row 4000 = -39"
  by (simp add: grid_row_def py_int_def grid_center_y_cell_def GRID_DIMENSION_def CELL_SIZE_MM_def)

text \<open>
  C3. If every cell of the grid lies in \<open>[0, MAX_CELL_VALUE]\<close>, it still does after a
  decay, after any one reading is integrated, and after a whole packet (a decay and then
  any number of readings, also into the same cell) is integrated; an accepted reading
  sets its cell to \<open>min (old + HIT_INCREMENT) MAX_CELL_VALUE\<close>. The grid starts as all
  zeros, which is in range.
\<close>

theorem grid_values_stay_in_range:
  "cells_in_range zero_grid
   \<and> (cells_in_range g \<longrightarrow>
        cells_in_range (decay g)
        \<and> cells_in_range (integrate_point heading g p)
        \<and> cells_in_range (foldl (integrate_point heading) g (replicate n p))
        \<and> cells_in_range (update_occupancy_grid heading g points))
   \<and> (0 < d \<and> d \<le> MAX_LIDAR_RANGE_MM_DISPLAY
        \<and> polar_to_cartesian_map_frame heading a d = (x, y)
        \<and> in_grid (grid_row y, grid_col x) \<longrightarrow>
        integrate_point heading g (Some (a, d)) (grid_row y, grid_col x)
          = min (g (grid_row y, grid_col x) + HIT_INCREMENT) MAX_CELL_VALUE)"
proof -
  have "cells_in_range zero_grid"
    by (simp add: cells_in_range_def zero_grid_def MAX_CELL_VALUE_def)
  then show ?thesis
    using integrate_point_hit [of d heading a x y g]
    by (simp add: decay_in_range integrate_point_in_range foldl_integrate_in_range
        update_occupancy_grid_in_range)
qed

theorem grid_values_stay_in_range_witness:
  "cells_in_range (decay zero_grid)
   \<and> cells_in_range (foldl (integrate_point 0) zero_grid (replicate 10 (Some (0, 100))))
   \<and> cells_in_range (update_occupancy_grid 0 zero_grid [Some (0, 100), None, Some (0, 100)])
   \<and> integrate_point 0 zero_grid (Some (0, 100)) (38, 40) = 25"
  using grid_values_stay_in_range [where g = zero_grid and heading = 0 and p = "Some (0, 100)"
      and n = 10 and points = "[Some (0, 100), None, Some (0, 100)]" and d = 100 and a = 0
      and x = 0 and y = 100]
  by (simp add: polar_eval_0_100 grid_row_100 grid_col_0 in_grid_def GRID_DIMENSION_def
      MAX_LIDAR_RANGE_MM_DISPLAY_def zero_grid_def HIT_INCREMENT_def MAX_CELL_VALUE_def)

lemma decay_iter_cell: "(decay ^^ n) g rc = (decay_cell ^^ n) (g rc)"
  by (induction n) (simp_all add: decay_def)

lemma decay_cell_zero: "decay_cell 0 = 0"
  by (simp add: decay_cell_def)

lemma decay_cell_cases:
  "decay_cell x = 0 \<or> (decay_cell x = x * DECAY_RATE \<and> CLEAR_BELOW_VALUE \<le> x * DECAY_RATE)"
  by (simp add: decay_cell_def Let_def)

lemma decay_cell_iter_cases:
  "0 < n \<Longrightarrow> (decay_cell ^^ n) v = 0
     \<or> ((decay_cell ^^ n) v = v * DECAY_RATE ^ n \<and> CLEAR_BELOW_VALUE \<le> v * DECAY_RATE ^ n)"
proof (induction n)
  case 0
  then show ?case by simp
next
  case (Suc n)
  define x where "x = (decay_cell ^^ n) v"
  have step: "(decay_cell ^^ Suc n) v = decay_cell x"
    by (simp add: x_def)
  have "x = 0 \<or> x = v * DECAY_RATE ^ n"
  proof (cases "n = 0")
    case True
    then show ?thesis by (simp add: x_def)
  next
    case False
    with Suc.IH show ?thesis by (auto simp: x_def)
  qed
  then show ?case
  proof
    assume "x = 0"
    then show ?thesis unfolding step by (simp add: decay_cell_zero)
  next
    assume "x = v * DECAY_RATE ^ n"
    then show ?thesis
      unfolding step using decay_cell_cases [of x] by (auto simp: mult_ac)
  qed
qed

lemma decay_cell_iter_zero:
  "0 < n \<Longrightarrow> v * DECAY_RATE ^ n < CLEAR_BELOW_VALUE \<Longrightarrow> (decay_cell ^^ n) v = 0"
  using decay_cell_iter_cases [of n v] by auto

lemma in_range_decays_below:
  assumes "v \<le> MAX_CELL_VALUE" "26 \<le> n"
  shows "v * DECAY_RATE ^ n < CLEAR_BELOW_VALUE"
proof (cases "v \<le> 0")
  case True
  have "0 \<le> DECAY_RATE ^ n" by (simp add: DECAY_RATE_def)
  with True have "v * DECAY_RATE ^ n \<le> 0" by (simp add: mult_nonpos_nonneg)
  then show ?thesis by (simp add: CLEAR_BELOW_VALUE_def)
next
  case False
  have "DECAY_RATE ^ n \<le> DECAY_RATE ^ 26"
    using assms(2) by (intro power_decreasing) (simp_all add: DECAY_RATE_def)
  moreover have "0 \<le> DECAY_RATE ^ n" by (simp add: DECAY_RATE_def)
  ultimately have "v * DECAY_RATE ^ n \<le> MAX_CELL_VALUE * DECAY_RATE ^ 26"
    using assms(1) False by (intro mult_mono) (simp_all add: MAX_CELL_VALUE_def)
  also have "\<dots> < CLEAR_BELOW_VALUE"
    by (simp add: MAX_CELL_VALUE_def DECAY_RATE_def CLEAR_BELOW_VALUE_def power_divide)
  finally show ?thesis .
qed

text \<open>
  C4. With no reading integrated in between, \<open>n\<close> decays take a cell to exactly 0 as soon as
  \<open>n\<close> is positive and the cell's value times \<open>DECAY_RATE ^ n\<close> is below
  \<open>CLEAR_BELOW_VALUE\<close>; for a cell that is at most \<open>MAX_CELL_VALUE\<close>, 26 decays (or
  more) are enough.
\<close>

theorem decay_converges:
  "(0 < n \<and> g rc * DECAY_RATE ^ n < CLEAR_BELOW_VALUE \<longrightarrow> (decay ^^ n) g rc = 0)
   \<and> (g rc \<le> MAX_CELL_VALUE \<and> 26 \<le> n \<longrightarrow> (decay ^^ n) g rc = 0)"
proof -
  have "(decay ^^ n) g rc = 0" if "g rc \<le> MAX_CELL_VALUE" "26 \<le> n"
    using that in_range_decays_below [of "g rc" n] decay_cell_iter_zero [of n "g rc"]
    by (simp add: decay_iter_cell)
  then show ?thesis
    using decay_cell_iter_zero [of n "g rc"] by (simp add: decay_iter_cell)
qed

theorem decay_converges_witness:
  "(decay ^^ 26) (\<lambda>rc. 150) (0, 0) = 0 \<and> (decay ^^ 3) (\<lambda>rc. 12) (0, 0) = 0"
  using decay_converges [of 26 "\<lambda>rc. 150" "(0, 0)"] decay_converges [of 3 "\<lambda>rc. 12" "(0, 0)"]
  by (simp add: MAX_CELL_VALUE_def DECAY_RATE_def CLEAR_BELOW_VALUE_def power_divide)

section \<open>Properties of the frame transform\<close>

text \<open>The two reductions modulo 360 do not change the direction of a reading.\<close>

lemma py_mod_period: "\<exists>k::int. py_mod x 360 = x - 360 * of_int k"
  by (auto simp: py_mod_def)

lemma sin_shift: "sin (x - of_int k * (2 * pi)) = sin x"
  using sin_int_2pin [of k] cos_int_2pin [of k] by (simp add: sin_diff mult.commute)

lemma cos_shift: "cos (x - of_int k * (2 * pi)) = cos x"
  using sin_int_2pin [of k] cos_int_2pin [of k] by (simp add: cos_diff mult.commute)

lemma radians_py_mod: "\<exists>k::int. radians (py_mod x 360) = radians x - of_int k * (2 * pi)"
  by (rule exI [of _ "\<lfloor>x / 360\<rfloor>"]) (simp add: py_mod_def radians_def algebra_simps)

lemma map_frame_angle:
  "\<exists>k::int. radians (angle_in_map_coords_deg heading a)
     = radians (a + LIDAR_MOUNTING_OFFSET_DEG + heading) - of_int k * (2 * pi)"
proof -
  obtain k1 :: int where k1: "py_mod (a + LIDAR_MOUNTING_OFFSET_DEG) 360
      = a + LIDAR_MOUNTING_OFFSET_DEG - 360 * of_int k1"
    using py_mod_period by blast
  obtain k2 :: int where k2: "py_mod (py_mod (a + LIDAR_MOUNTING_OFFSET_DEG) 360 + heading) 360
      = py_mod (a + LIDAR_MOUNTING_OFFSET_DEG) 360 + heading - 360 * of_int k2"
    using py_mod_period by blast
  have "angle_in_map_coords_deg heading a
      = py_mod (a + LIDAR_MOUNTING_OFFSET_DEG) 360 + heading - 360 * of_int k2"
    by (simp only: angle_in_map_coords_deg_def k2)
  also have "\<dots> = a + LIDAR_MOUNTING_OFFSET_DEG + heading - 360 * of_int (k1 + k2)"
    by (simp only: k1) simp
  finally have "radians (angle_in_map_coords_deg heading a)
      = radians (a + LIDAR_MOUNTING_OFFSET_DEG + heading - 360 * of_int (k1 + k2))"
    by simp
  also have "\<dots> = radians (a + LIDAR_MOUNTING_OFFSET_DEG + heading) - of_int (k1 + k2) * (2 * pi)"
    by (simp add: radians_def algebra_simps)
  finally show ?thesis
    by blast
qed

lemma polar_to_cartesian_direction:
  "polar_to_cartesian_map_frame heading a d
     = (d * sin (radians (a + LIDAR_MOUNTING_OFFSET_DEG + heading)),
        d * cos (radians (a + LIDAR_MOUNTING_OFFSET_DEG + heading)))"
proof -
  obtain k :: int where "radians (angle_in_map_coords_deg heading a)
     = radians (a + LIDAR_MOUNTING_OFFSET_DEG + heading) - of_int k * (2 * pi)"
    using map_frame_angle by blast
  then show ?thesis
    by (simp add: polar_to_cartesian_map_frame_def Let_def sin_shift cos_shift)
qed

text \<open>
  C8. The map-frame offset of a reading is \<open>x = range * sin b\<close>, \<open>y = range * cos b\<close> for
  the bearing \<open>b = ((raw_bearing + mounting_offset) mod 360 + heading) mod 360\<close> in radians.
  A reading whose range is not positive or is beyond the maximum leaves the grid as it
  is; so does a reading whose row or column index, computed with the half-cell bias, is
  outside \<open>[0, GRID_DIMENSION)\<close>. Any other reading changes its own cell only.
\<close>

theorem reading_to_cell:
  "polar_to_cartesian_map_frame heading raw_bearing range_mm
     = (range_mm * sin (radians (py_mod (py_mod (raw_bearing + LIDAR_MOUNTING_OFFSET_DEG) 360 + heading) 360)),
        range_mm * cos (radians (py_mod (py_mod (raw_bearing + LIDAR_MOUNTING_OFFSET_DEG) 360 + heading) 360)))
   \<and> (\<not> (0 < range_mm \<and> range_mm \<le> MAX_LIDAR_RANGE_MM_DISPLAY) \<longrightarrow>
        integrate_point heading g (Some (raw_bearing, range_mm)) = g)
   \<and> (polar_to_cartesian_map_frame heading raw_bearing range_mm = (x, y)
        \<and> \<not> in_grid (grid_row y, grid_col x) \<longrightarrow>
        integrate_point heading g (Some (raw_bearing, range_mm)) = g)
   \<and> (0 < range_mm \<and> range_mm \<le> MAX_LIDAR_RANGE_MM_DISPLAY
        \<and> polar_to_cartesian_map_frame heading raw_bearing range_mm = (x, y)
        \<and> in_grid (grid_row y, grid_col x) \<longrightarrow>
        integrate_point heading g (Some (raw_bearing, range_mm))
          = g((grid_row y, grid_col x) := min (g (grid_row y, grid_col x) + HIT_INCREMENT) MAX_CELL_VALUE))"
  by (auto simp: polar_to_cartesian_map_frame_def angle_in_map_coords_deg_def Let_def
      integrate_point_def in_grid_def)

theorem reading_to_cell_witness:
  "integrate_point 0 zero_grid (Some (0, 0)) = zero_grid
   \<and> integrate_point 0 zero_grid (Some (0, 5000)) = zero_grid
   \<and> integrate_point 0 zero_grid (Some (0, 4000)) = zero_grid
   \<and> integrate_point 0 zero_grid (Some (0, 100)) = zero_grid((38, 40) := 25)"
  using reading_to_cell [where heading = 0 and raw_bearing = 0 and range_mm = 0 and g = zero_grid]
    reading_to_cell [where heading = 0 and raw_bearing = 0 and range_mm = 5000 and g = zero_grid]
    reading_to_cell [where heading = 0 and raw_bearing = 0 and range_mm = 4000 and g = zero_grid
      and x = 0 and y = 4000]
    reading_to_cell [where heading = 0 and raw_bearing = 0 and range_mm = 100 and g = zero_grid
      and x = 0 and y = 100]
  by (simp add: polar_eval_0_100 polar_eval_0_4000 grid_row_100 grid_row_4000 grid_col_0
      in_grid_def GRID_DIMENSION_def MAX_LIDAR_RANGE_MM_DISPLAY_def zero_grid_def
      HIT_INCREMENT_def MAX_CELL_VALUE_def)

section \<open>Properties of the command channel\<close>

lemma handle_error_robot_commands [simp]:
  "robot_commands (handle_command_send_error v) = robot_commands v"
  by (simp add: handle_command_send_error_def Let_def)

text \<open>
  C10. While the navigation state is \<open>NAV_STATE_IDLE\<close>, \<open>send_command\<close> with any command
  other than \<open>S\<close> returns \<open>False\<close> and leaves the viewer as it is: no connection to the
  robot is opened and the state does not become \<open>NAV_STATE_ROBOT_CMD_ERROR\<close>. The command
  \<open>S\<close> opens a connection in every navigation state.
\<close>

theorem idle_gate:
  "(navigation_state v = NAV_STATE_IDLE \<and> command \<noteq> ''S'' \<longrightarrow>
      send_command tr command v = (False, v))
   \<and> robot_commands (snd (send_command tr ''S'' v)) = robot_commands v @ [(''S'', tr)]"
  by (cases tr) (simp_all add: send_command_def Let_def)

theorem idle_gate_witness:
  "send_command Connection_refused ''F'' init_viewer = (False, init_viewer)
   \<and> robot_commands (snd (send_command Connection_refused ''S'' init_viewer))
       = [(''S'', Connection_refused)]"
  using idle_gate [of init_viewer "''F''" Connection_refused]
  by (simp add: init_viewer_def)

text \<open>
  C5, as stated, fails: a failed \<open>S\<close> sent while the state is \<open>NAV_STATE_REACHED_GOAL\<close>
  (as \<open>path_planning_succeeded\<close> does when the goal is the robot's own cell) returns
  \<open>False\<close> and leaves the state at \<open>NAV_STATE_REACHED_GOAL\<close>.
\<close>

theorem send_failure_counterexample:
  "send_command Socket_timeout ''S'' (init_viewer\<lparr> navigation_state := NAV_STATE_REACHED_GOAL \<rparr>)
     = (False, init_viewer\<lparr> navigation_state := NAV_STATE_REACHED_GOAL,
                            robot_commands := [(''S'', Socket_timeout)],
                            last_command_sent_successful := False \<rparr>)
   \<and> navigation_state
         (path_planning_succeeded Socket_timeout []
            (init_viewer\<lparr> navigation_state := NAV_STATE_PLANNING,
                          navigation_goal_cell := Some current_logical_robot_cell_on_path \<rparr>))
       = NAV_STATE_REACHED_GOAL
   \<and> robot_commands
         (path_planning_succeeded Socket_timeout []
            (init_viewer\<lparr> navigation_state := NAV_STATE_PLANNING,
                          navigation_goal_cell := Some current_logical_robot_cell_on_path \<rparr>))
       = [(''S'', Socket_timeout)]"
  by (simp add: send_command_def handle_command_send_error_def path_planning_succeeded_def
      Let_def init_viewer_def)

text \<open>
  C5, amended. A transport failure (a timeout, a refused connection, any other exception)
  makes \<open>send_command\<close> return \<open>False\<close>; nothing is raised. Unless the command was held
  back by the idle gate, the failure also clears the pending action timer, records that
  the last command failed, and moves the navigation state to \<open>NAV_STATE_ROBOT_CMD_ERROR\<close>,
  except from \<open>NAV_STATE_IDLE\<close>, \<open>NAV_STATE_REACHED_GOAL\<close> and \<open>NAV_STATE_NO_PATH_FOUND\<close>,
  which are kept.
\<close>

theorem send_failure:
  "tr \<noteq> Delivered \<longrightarrow>
     fst (send_command tr command v) = False
     \<and> (\<not> (navigation_state v = NAV_STATE_IDLE \<and> command \<noteq> ''S'') \<longrightarrow>
          action_timer_id (snd (send_command tr command v)) = None
          \<and> \<not> last_command_sent_successful (snd (send_command tr command v))
          \<and> navigation_state (snd (send_command tr command v))
              = (if navigation_state v \<in> {NAV_STATE_IDLE, NAV_STATE_REACHED_GOAL, NAV_STATE_NO_PATH_FOUND}
                 then navigation_state v else NAV_STATE_ROBOT_CMD_ERROR))"
  by (cases tr) (simp_all add: send_command_def handle_command_send_error_def Let_def)

theorem send_failure_witness:
  "fst (send_command Other_exception ''F'' (init_viewer\<lparr> navigation_state := NAV_STATE_MOVING_FORWARD,
       action_timer_id := Some On_action_completed \<rparr>)) = False
   \<and> action_timer_id (snd (send_command Other_exception ''F'' (init_viewer\<lparr> navigation_state := NAV_STATE_MOVING_FORWARD,
       action_timer_id := Some On_action_completed \<rparr>))) = None
   \<and> navigation_state (snd (send_command Other_exception ''F'' (init_viewer\<lparr> navigation_state := NAV_STATE_MOVING_FORWARD,
       action_timer_id := Some On_action_completed \<rparr>))) = NAV_STATE_ROBOT_CMD_ERROR"
  using send_failure [of Other_exception "''F''" "init_viewer\<lparr> navigation_state := NAV_STATE_MOVING_FORWARD,
       action_timer_id := Some On_action_completed \<rparr>"]
  by simp

section \<open>Properties of the navigation step\<close>

lemma py_mod_add_360: "py_mod (x + 360) 360 = py_mod x 360"
proof -
  have "\<lfloor>(x + 360) / 360\<rfloor> = \<lfloor>x / 360\<rfloor> + 1"
    by (simp add: add_divide_distrib)
  then show ?thesis by (simp add: py_mod_def algebra_simps)
qed

lemma py_mod_range: "0 \<le> py_mod x 360 \<and> py_mod x 360 < 360"
proof -
  have "0 \<le> x / 360 - of_int \<lfloor>x / 360\<rfloor>" "x / 360 - of_int \<lfloor>x / 360\<rfloor> < 1"
    by linarith+
  then show ?thesis by (simp add: py_mod_def field_simps)
qed

lemma py_mod_small: "0 \<le> x \<Longrightarrow> x < 360 \<Longrightarrow> py_mod x 360 = x"
proof -
  assume "0 \<le> x" "x < 360"
  then have "\<lfloor>x / 360\<rfloor> = 0" by (intro floor_unique) auto
  then show ?thesis by (simp add: py_mod_def)
qed

lemma py_mod_negative: "- 360 \<le> x \<Longrightarrow> x < 0 \<Longrightarrow> py_mod x 360 = x + 360"
  using py_mod_add_360 [of x] py_mod_small [of "x + 360"] by simp

lemma choose_action_by_diff:
  assumes "py_mod (t - h) 360 = d"
  shows "d = 0 \<Longrightarrow> choose_action h t = Some (NAV_STATE_MOVING_FORWARD, ''F'')"
    and "d = 90 \<Longrightarrow> choose_action h t = Some (NAV_STATE_TURNING_RIGHT, ''R'')"
    and "d = 180 \<Longrightarrow> choose_action h t = Some (NAV_STATE_TURNING_RIGHT, ''R'')"
    and "d = 270 \<Longrightarrow> choose_action h t = Some (NAV_STATE_TURNING_LEFT, ''L'')"
  using assms by (simp_all add: choose_action_def py_mod_add_360 angle_tolerance_def Let_def)

lemma cardinal_diff:
  assumes "h \<in> {0, 90, 180, 270}" "t \<in> {0, 90, 180, 270}"
  shows "py_mod (t - h) 360 \<in> {0, 90, 180, 270}"
proof -
  have "t - h \<in> {0, 90, 180, 270, -90, -180, -270}"
    using assms by auto
  then consider "0 \<le> t - h \<and> t - h < 360 \<and> t - h \<in> {0, 90, 180, 270}"
    | "- 360 \<le> t - h \<and> t - h < 0 \<and> t - h + 360 \<in> {90, 180, 270}"
    by auto
  then show ?thesis
  proof cases
    case 1
    then show ?thesis using py_mod_small [of "t - h"] by simp
  next
    case 2
    then show ?thesis using py_mod_negative [of "t - h"] by auto
  qed
qed

lemma forward_within_tolerance:
  assumes "\<bar>h - t\<bar> < 1"
  shows "choose_action h t = Some (NAV_STATE_MOVING_FORWARD, ''F'')"
proof -
  define d where "d = py_mod (t - h) 360"
  have "d < 1 \<or> 359 < d"
  proof (cases "h \<le> t")
    case True
    then show ?thesis using assms py_mod_small [of "t - h"] by (simp add: d_def)
  next
    case False
    then show ?thesis using assms py_mod_negative [of "t - h"] by (simp add: d_def)
  qed
  moreover have "0 \<le> d \<and> d < 360"
    by (simp add: d_def py_mod_range)
  ultimately show ?thesis
    by (auto simp: choose_action_def py_mod_add_360 d_def [symmetric] angle_tolerance_def Let_def)
qed


lemma choose_action_some:
  "choose_action h t = Some (st, cmd) \<Longrightarrow>
     (st, cmd) \<in> {(NAV_STATE_MOVING_FORWARD, ''F''), (NAV_STATE_TURNING_RIGHT, ''R''),
                   (NAV_STATE_TURNING_LEFT, ''L'')}"
  by (auto simp: choose_action_def Let_def split: if_splits)

lemma send_command_active:
  assumes "navigation_state v \<in> {NAV_STATE_MOVING_FORWARD, NAV_STATE_TURNING_RIGHT, NAV_STATE_TURNING_LEFT}"
  shows "send_command tr cmd v =
     (if tr = Delivered
      then (True, v\<lparr> robot_commands := robot_commands v @ [(cmd, tr)],
                      last_command_sent_successful := True \<rparr>)
      else (False, v\<lparr> robot_commands := robot_commands v @ [(cmd, tr)],
                       last_command_sent_successful := False,
                       action_timer_id := None,
                       navigation_state := NAV_STATE_ROBOT_CMD_ERROR \<rparr>))"
  using assms by (cases tr) (auto simp: send_command_def handle_command_send_error_def Let_def)

lemma execute_step_cardinal:
  assumes active: "navigation_state v \<in> {NAV_STATE_AWAITING_NEXT_STEP, NAV_STATE_TURNING_LEFT,
                      NAV_STATE_TURNING_RIGHT, NAV_STATE_MOVING_FORWARD}"
    and timer: "action_end_time v \<le> now"
    and path: "current_path v = c # rest"
    and clear: "is_valid_and_clear (occupancy_grid v) c"
    and card: "target_orientation (fst c - fst current_logical_robot_cell_on_path)
                 (snd c - snd current_logical_robot_cell_on_path) = Cardinal t"
    and choice: "choose_action (robot_orientation_map_deg v) t = Some (st, cmd)"
  shows "execute_navigation_step now tr v =
     (case send_command tr cmd (v\<lparr> navigation_state := st \<rparr>) of
        (True, v1) \<Rightarrow> Inr ((update_logical_state v1)
                              \<lparr> action_end_time := now + ACTION_DURATION_S,
                                action_timer_id := Some On_action_completed \<rparr>)
      | (False, v1) \<Rightarrow> Inr v1)"
  using assms by (auto simp: execute_navigation_step_def Let_def)

lemma py_mod_360_values:
  "py_mod 0 360 = 0" "py_mod 90 360 = 90" "py_mod 180 360 = 180" "py_mod 270 360 = 270"
  "py_mod 360 360 = 0" "py_mod (-90) 360 = 270" "py_mod (-180) 360 = 180"
  "py_mod (-270) 360 = 90"
  by (simp_all add: py_mod_def)

lemma choose_action_table:
  assumes "h \<in> {0, 90, 180, 270}" "t \<in> {0, 90, 180, 270}"
  shows "choose_action h t =
     Some (if py_mod (t - h) 360 = 0 then (NAV_STATE_MOVING_FORWARD, ''F'')
           else if py_mod (t - h) 360 = 270 then (NAV_STATE_TURNING_LEFT, ''L'')
           else (NAV_STATE_TURNING_RIGHT, ''R''))"
  using cardinal_diff [OF assms] choose_action_by_diff [of t h "py_mod (t - h) 360"]
  by auto

lemma half_turn_pairs:
  assumes "h \<in> {0, 90, 180, 270}" "t \<in> {0, 90, 180, 270}" "py_mod (t - h) 360 = 180"
  shows "(h, t) \<in> {(0, 180), (90, 270), (180, 0), (270, 90)}"
  using assms by (auto simp: py_mod_360_values)

lemma half_turn_is_two_right_turns:
  assumes "h \<in> {0, 90, 180, 270}" "t \<in> {0, 90, 180, 270}" "py_mod (t - h) 360 = 180"
  shows "choose_action h t = Some (NAV_STATE_TURNING_RIGHT, ''R'')"
    and "choose_action (py_mod (h + 90) 360) t = Some (NAV_STATE_TURNING_RIGHT, ''R'')"
    and "choose_action (py_mod (py_mod (h + 90) 360 + 90) 360) t
           = Some (NAV_STATE_MOVING_FORWARD, ''F'')"
proof -
  show "choose_action h t = Some (NAV_STATE_TURNING_RIGHT, ''R'')"
    using assms(3) by (rule choose_action_by_diff(3)) simp
  have pairs: "(h, t) \<in> {(0, 180), (90, 270), (180, 0), (270, 90)}"
    using assms by (rule half_turn_pairs)
  then have "py_mod (t - py_mod (h + 90) 360) 360 = 90"
    by (auto simp: py_mod_360_values)
  then show "choose_action (py_mod (h + 90) 360) t = Some (NAV_STATE_TURNING_RIGHT, ''R'')"
    by (rule choose_action_by_diff(2)) simp
  from pairs have "py_mod (t - py_mod (py_mod (h + 90) 360 + 90) 360) 360 = 0"
    by (auto simp: py_mod_360_values)
  then show "choose_action (py_mod (py_mod (h + 90) 360 + 90) 360) t
           = Some (NAV_STATE_MOVING_FORWARD, ''F'')"
    by (rule choose_action_by_diff(1)) simp
qed

lemma center_cell: "current_logical_robot_cell_on_path = (40, 40)"
  by (simp add: current_logical_robot_cell_on_path_def grid_center_x_cell_def
      grid_center_y_cell_def GRID_DIMENSION_def)

lemma zero_grid_clear: "in_grid c \<Longrightarrow> is_valid_and_clear zero_grid c"
  by (cases c) (simp add: in_grid_def is_valid_and_clear_def zero_grid_def RENDER_THRESHOLD_def)

text \<open>
  C6. A heading within one degree of the target heading selects the forward command and
  the state \<open>NAV_STATE_MOVING_FORWARD\<close>. With heading and target among 0, 90, 180 and 270
  the delta \<open>(target - heading) mod 360\<close> is 0, 90, 180 or 270 and selects one command:
  forward for 0, right for 90, left for 270 (that is, -90), right for 180; after the
  right turn of a 180 delta the next choice is a right turn again, and forward after
  that. The step whose path head is clear and one cardinal move away sends exactly the
  selected command, in the selected state, which it keeps when the command is
  delivered.
\<close>

theorem navigation_step_choice:
  "(\<bar>h - t\<bar> < angle_tolerance \<longrightarrow> choose_action h t = Some (NAV_STATE_MOVING_FORWARD, ''F''))
   \<and> (h \<in> {0, 90, 180, 270} \<and> t \<in> {0, 90, 180, 270} \<longrightarrow>
        py_mod (t - h) 360 \<in> {0, 90, 180, 270}
        \<and> choose_action h t =
            Some (if py_mod (t - h) 360 = 0 then (NAV_STATE_MOVING_FORWARD, ''F'')
                  else if py_mod (t - h) 360 = 270 then (NAV_STATE_TURNING_LEFT, ''L'')
                  else (NAV_STATE_TURNING_RIGHT, ''R''))
        \<and> (py_mod (t - h) 360 = 180 \<longrightarrow>
               choose_action (py_mod (h + 90) 360) t = Some (NAV_STATE_TURNING_RIGHT, ''R'')
               \<and> choose_action (py_mod (py_mod (h + 90) 360 + 90) 360) t
                   = Some (NAV_STATE_MOVING_FORWARD, ''F'')))
   \<and> (navigation_state v \<in> {NAV_STATE_AWAITING_NEXT_STEP, NAV_STATE_TURNING_LEFT,
                              NAV_STATE_TURNING_RIGHT, NAV_STATE_MOVING_FORWARD}
        \<and> action_end_time v \<le> now
        \<and> current_path v = c # rest
        \<and> is_valid_and_clear (occupancy_grid v) c
        \<and> target_orientation (fst c - fst current_logical_robot_cell_on_path)
             (snd c - snd current_logical_robot_cell_on_path) = Cardinal t'
        \<and> choose_action (robot_orientation_map_deg v) t' = Some (st, cmd) \<longrightarrow>
        (case execute_navigation_step now tr v of
           Inl e \<Rightarrow> False
         | Inr v' \<Rightarrow>
             robot_commands v' = robot_commands v @ [(cmd, tr)]
             \<and> navigation_state v' = (if tr = Delivered then st else NAV_STATE_ROBOT_CMD_ERROR)))"
proof (intro conjI impI)
  assume "\<bar>h - t\<bar> < angle_tolerance"
  then show "choose_action h t = Some (NAV_STATE_MOVING_FORWARD, ''F'')"
    by (simp add: forward_within_tolerance angle_tolerance_def)
next
  assume a: "h \<in> {0, 90, 180, 270} \<and> t \<in> {0, 90, 180, 270}"
  note hc = conjunct1 [OF a] and tc = conjunct2 [OF a]
  show "py_mod (t - h) 360 \<in> {0, 90, 180, 270}"
    by (rule cardinal_diff [OF hc tc])
  show "choose_action h t =
            Some (if py_mod (t - h) 360 = 0 then (NAV_STATE_MOVING_FORWARD, ''F'')
                  else if py_mod (t - h) 360 = 270 then (NAV_STATE_TURNING_LEFT, ''L'')
                  else (NAV_STATE_TURNING_RIGHT, ''R''))"
    by (rule choose_action_table [OF hc tc])
  assume half: "py_mod (t - h) 360 = 180"
  show "choose_action (py_mod (h + 90) 360) t = Some (NAV_STATE_TURNING_RIGHT, ''R'')"
    and "choose_action (py_mod (py_mod (h + 90) 360 + 90) 360) t
                   = Some (NAV_STATE_MOVING_FORWARD, ''F'')"
    by (rule half_turn_is_two_right_turns [OF hc tc half])+
next
  assume a: "navigation_state v \<in> {NAV_STATE_AWAITING_NEXT_STEP, NAV_STATE_TURNING_LEFT,
                              NAV_STATE_TURNING_RIGHT, NAV_STATE_MOVING_FORWARD}
        \<and> action_end_time v \<le> now
        \<and> current_path v = c # rest
        \<and> is_valid_and_clear (occupancy_grid v) c
        \<and> target_orientation (fst c - fst current_logical_robot_cell_on_path)
             (snd c - snd current_logical_robot_cell_on_path) = Cardinal t'
        \<and> choose_action (robot_orientation_map_deg v) t' = Some (st, cmd)"
  have active: "navigation_state v \<in> {NAV_STATE_AWAITING_NEXT_STEP, NAV_STATE_TURNING_LEFT,
                              NAV_STATE_TURNING_RIGHT, NAV_STATE_MOVING_FORWARD}"
    and timer: "action_end_time v \<le> now"
    and path: "current_path v = c # rest"
    and clear: "is_valid_and_clear (occupancy_grid v) c"
    and card: "target_orientation (fst c - fst current_logical_robot_cell_on_path)
             (snd c - snd current_logical_robot_cell_on_path) = Cardinal t'"
    and choice: "choose_action (robot_orientation_map_deg v) t' = Some (st, cmd)"
    by (rule conjunct1 [OF a], rule conjunct1 [OF conjunct2 [OF a]],
        rule conjunct1 [OF conjunct2 [OF conjunct2 [OF a]]],
        rule conjunct1 [OF conjunct2 [OF conjunct2 [OF conjunct2 [OF a]]]],
        rule conjunct1 [OF conjunct2 [OF conjunct2 [OF conjunct2 [OF conjunct2 [OF a]]]]],
        rule conjunct2 [OF conjunct2 [OF conjunct2 [OF conjunct2 [OF conjunct2 [OF a]]]]])
  have st: "st \<in> {NAV_STATE_MOVING_FORWARD, NAV_STATE_TURNING_RIGHT, NAV_STATE_TURNING_LEFT}"
    using choose_action_some [OF choice] by auto
  have step: "execute_navigation_step now tr v =
     (case send_command tr cmd (v\<lparr> navigation_state := st \<rparr>) of
        (True, v1) \<Rightarrow> Inr ((update_logical_state v1)
                              \<lparr> action_end_time := now + ACTION_DURATION_S,
                                action_timer_id := Some On_action_completed \<rparr>)
      | (False, v1) \<Rightarrow> Inr v1)"
    by (rule execute_step_cardinal [OF active timer path clear card choice])
  have sent: "send_command tr cmd (v\<lparr> navigation_state := st \<rparr>) =
     (if tr = Delivered
      then (True, v\<lparr> navigation_state := st,
                      robot_commands := robot_commands v @ [(cmd, tr)],
                      last_command_sent_successful := True \<rparr>)
      else (False, v\<lparr> navigation_state := st,
                       robot_commands := robot_commands v @ [(cmd, tr)],
                       last_command_sent_successful := False,
                       action_timer_id := None,
                       navigation_state := NAV_STATE_ROBOT_CMD_ERROR \<rparr>))"
    using st by (subst send_command_active) simp_all
  show "case execute_navigation_step now tr v of
           Inl e \<Rightarrow> False
         | Inr v' \<Rightarrow>
             robot_commands v' = robot_commands v @ [(cmd, tr)]
             \<and> navigation_state v' = (if tr = Delivered then st else NAV_STATE_ROBOT_CMD_ERROR)"
    unfolding step sent by (simp add: update_logical_state_def)
qed

theorem navigation_step_choice_witness:
  "choose_action 0 0 = Some (NAV_STATE_MOVING_FORWARD, ''F'')
   \<and> choose_action 0 90 = Some (NAV_STATE_TURNING_RIGHT, ''R'')
   \<and> choose_action 90 0 = Some (NAV_STATE_TURNING_LEFT, ''L'')
   \<and> choose_action 0 180 = Some (NAV_STATE_TURNING_RIGHT, ''R'')
   \<and> choose_action (py_mod (0 + 90) 360) 180 = Some (NAV_STATE_TURNING_RIGHT, ''R'')
   \<and> choose_action (py_mod (py_mod (0 + 90) 360 + 90) 360) 180 = Some (NAV_STATE_MOVING_FORWARD, ''F'')
   \<and> (case execute_navigation_step 5 Delivered
             (init_viewer\<lparr> navigation_state := NAV_STATE_AWAITING_NEXT_STEP,
                           current_path := [(39, 40)] \<rparr>) of
         Inl e \<Rightarrow> False
       | Inr v' \<Rightarrow> robot_commands v' = [(''F'', Delivered)]
                   \<and> navigation_state v' = NAV_STATE_MOVING_FORWARD)"
proof -
  define v0 where "v0 = init_viewer\<lparr> navigation_state := NAV_STATE_AWAITING_NEXT_STEP,
                           current_path := [(39, 40)] \<rparr>"
  have f: "choose_action 0 0 = Some (NAV_STATE_MOVING_FORWARD, ''F'')"
    using navigation_step_choice [where h = 0 and t = 0, THEN conjunct1]
    by (simp add: angle_tolerance_def)
  have r: "choose_action 0 90 = Some (NAV_STATE_TURNING_RIGHT, ''R'')"
    using navigation_step_choice [where h = 0 and t = 90, THEN conjunct2, THEN conjunct1]
    by (simp add: py_mod_360_values)
  have l: "choose_action 90 0 = Some (NAV_STATE_TURNING_LEFT, ''L'')"
    using navigation_step_choice [where h = 90 and t = 0, THEN conjunct2, THEN conjunct1]
    by (simp add: py_mod_360_values)
  have u: "choose_action 0 180 = Some (NAV_STATE_TURNING_RIGHT, ''R'')
     \<and> choose_action (py_mod (0 + 90) 360) 180 = Some (NAV_STATE_TURNING_RIGHT, ''R'')
     \<and> choose_action (py_mod (py_mod (0 + 90) 360 + 90) 360) 180
          = Some (NAV_STATE_MOVING_FORWARD, ''F'')"
    using navigation_step_choice [where h = 0 and t = 180, THEN conjunct2, THEN conjunct1]
    by (simp add: py_mod_360_values)
  have sel: "navigation_state v0 = NAV_STATE_AWAITING_NEXT_STEP" "action_end_time v0 = 0"
    "current_path v0 = [(39, 40)]" "occupancy_grid v0 = zero_grid"
    "robot_orientation_map_deg v0 = 0" "robot_commands v0 = []"
    by (simp_all add: v0_def init_viewer_def)
  have clear: "is_valid_and_clear zero_grid (39, 40)"
    by (simp add: zero_grid_clear in_grid_def GRID_DIMENSION_def)
  have tgt: "target_orientation (39 - fst current_logical_robot_cell_on_path)
       (40 - snd current_logical_robot_cell_on_path) = Cardinal 0"
    by (simp add: target_orientation_def center_cell)
  have e: "case execute_navigation_step 5 Delivered v0 of
         Inl e \<Rightarrow> False
       | Inr v' \<Rightarrow> robot_commands v' = robot_commands v0 @ [(''F'', Delivered)]
                   \<and> navigation_state v' = (if Delivered = Delivered then NAV_STATE_MOVING_FORWARD
                                             else NAV_STATE_ROBOT_CMD_ERROR)"
    by (rule navigation_step_choice [where v = v0 and now = 5 and tr = Delivered
          and c = "(39, 40)" and rest = "[]" and t' = 0 and st = NAV_STATE_MOVING_FORWARD
          and cmd = "''F''", THEN conjunct2, THEN conjunct2, THEN mp])
       (simp add: sel clear tgt f)
  then have "case execute_navigation_step 5 Delivered v0 of
         Inl e \<Rightarrow> False
       | Inr v' \<Rightarrow> robot_commands v' = [(''F'', Delivered)]
                   \<and> navigation_state v' = NAV_STATE_MOVING_FORWARD"
    by (auto simp: sel split: sum.splits)
  then show ?thesis
    using f r l u unfolding v0_def by simp
qed

section \<open>Properties of the heading\<close>

lemma handle_error_heading [simp]:
  "robot_orientation_map_deg (handle_command_send_error v) = robot_orientation_map_deg v"
  by (simp add: handle_command_send_error_def Let_def)

lemma send_command_heading [simp]:
  "robot_orientation_map_deg (snd (send_command tr cmd v)) = robot_orientation_map_deg v"
  by (cases tr) (simp_all add: send_command_def Let_def)

lemma send_command_True:
  "send_command tr cmd v = (True, v1) \<Longrightarrow>
     tr = Delivered \<and> v1 = v\<lparr> robot_commands := robot_commands v @ [(cmd, tr)],
                               last_command_sent_successful := True \<rparr>"
  by (cases tr) (auto simp: send_command_def Let_def split: if_splits)

lemma send_command_False_heading:
  "send_command tr cmd v = (False, v1) \<Longrightarrow> robot_orientation_map_deg v1 = robot_orientation_map_deg v"
  using send_command_heading [of tr cmd v] by simp

lemma toggle_connection_heading:
  "robot_orientation_map_deg (toggle_connection tr ip bind_ok v) = robot_orientation_map_deg v
   \<or> robot_orientation_map_deg (toggle_connection tr ip bind_ok v) = 0"
  by (simp add: toggle_connection_def start_udp_listener_def Let_def)

lemma udp_receive_heading [simp]:
  "robot_orientation_map_deg (udp_receive p v) = robot_orientation_map_deg v"
  by (simp add: udp_receive_def)

lemma handle_map_click_heading [simp]:
  "robot_orientation_map_deg (handle_map_click u tr c v) = robot_orientation_map_deg v"
  by (simp add: handle_map_click_def Let_def)

lemma path_planning_succeeded_heading [simp]:
  "robot_orientation_map_deg (path_planning_succeeded tr path v) = robot_orientation_map_deg v"
  by (simp add: path_planning_succeeded_def Let_def)

lemma planner_finished_heading [simp]:
  "robot_orientation_map_deg (planner_finished tr v) = robot_orientation_map_deg v"
  by (simp add: planner_finished_def path_planning_failed_def
      split: option.splits plan_outcome.splits)

lemma drain_queue_heading [simp]:
  "robot_orientation_map_deg (fst (drain_queue n v b)) = robot_orientation_map_deg v"
  by (induction n v b rule: drain_queue.induct) (simp_all split: list.splits)

lemma drain_queue_commands [simp]:
  "robot_commands (fst (drain_queue n v b)) = robot_commands v"
  by (induction n v b rule: drain_queue.induct) (simp_all split: list.splits)

lemma process_queued_data_heading [simp]:
  "robot_orientation_map_deg (process_queued_data v) = robot_orientation_map_deg v"
proof -
  obtain v1 b where d: "drain_queue 2 v False = (v1, b)"
    by (cases "drain_queue 2 v False")
  have "robot_orientation_map_deg v1 = robot_orientation_map_deg v"
    using drain_queue_heading [of 2 v False] by (simp add: d)
  then show ?thesis
    by (simp add: process_queued_data_def d)
qed

lemma process_queued_data_commands [simp]:
  "robot_commands (process_queued_data v) = robot_commands v"
proof -
  obtain v1 b where d: "drain_queue 2 v False = (v1, b)"
    by (cases "drain_queue 2 v False")
  have "robot_commands v1 = robot_commands v"
    using drain_queue_commands [of 2 v False] by (simp add: d)
  then show ?thesis
    by (simp add: process_queued_data_def d)
qed

lemma on_action_completed_heading [simp]:
  "robot_orientation_map_deg (on_action_completed tr v) = robot_orientation_map_deg v"
proof -
  obtain ok v2 where sc: "send_command tr ''S'' (v\<lparr> action_timer_id := None \<rparr>) = (ok, v2)"
    by (cases "send_command tr ''S'' (v\<lparr> action_timer_id := None \<rparr>)")
  have "robot_orientation_map_deg v2 = robot_orientation_map_deg v"
    using send_command_heading [of tr "''S''" "v\<lparr> action_timer_id := None \<rparr>"]
    by (simp add: sc)
  then show ?thesis
    by (cases ok) (simp_all add: on_action_completed_def Let_def sc)
qed

lemma timer_fires_heading [simp]:
  "robot_orientation_map_deg (timer_fires tr v) = robot_orientation_map_deg v"
  by (simp add: timer_fires_def on_action_completed_no_command_def Let_def
      split: option.splits callback.splits)

lemma update_logical_state_heading:
  "robot_orientation_map_deg (update_logical_state v) =
     (if navigation_state v = NAV_STATE_TURNING_LEFT
      then py_mod (robot_orientation_map_deg v - 90 + 360) 360
      else if navigation_state v = NAV_STATE_TURNING_RIGHT
      then py_mod (robot_orientation_map_deg v + 90) 360
      else robot_orientation_map_deg v)"
  by (simp add: update_logical_state_def)

lemma update_logical_state_commands [simp]:
  "robot_commands (update_logical_state v) = robot_commands v"
  by (simp add: update_logical_state_def)

text \<open>What one navigation step can do to the heading.\<close>

lemma execute_step_heading:
  assumes "execute_navigation_step now tr v = Inr v'"
  shows "robot_orientation_map_deg v' = robot_orientation_map_deg v
     \<or> (tr = Delivered
         \<and> ((robot_orientation_map_deg v' = py_mod (robot_orientation_map_deg v + 90) 360
              \<and> robot_commands v' = robot_commands v @ [(''R'', Delivered)])
            \<or> (robot_orientation_map_deg v' = py_mod (robot_orientation_map_deg v - 90 + 360) 360
              \<and> robot_commands v' = robot_commands v @ [(''L'', Delivered)])))"
proof (cases "navigation_state v \<in>
           set [NAV_STATE_IDLE, NAV_STATE_PLANNING, NAV_STATE_REACHED_GOAL,
                NAV_STATE_NO_PATH_FOUND, NAV_STATE_PATH_BLOCKED, NAV_STATE_ROBOT_CMD_ERROR]
         \<or> now < action_end_time v")
  case True
  then have "v' = v" using assms by (auto simp: execute_navigation_step_def split: if_splits)
  then show ?thesis by simp
next
  case active: False
  show ?thesis
  proof (cases "current_path v")
    case Nil
    then show ?thesis
      using assms active by (auto simp: execute_navigation_step_def Let_def split: if_splits)
  next
    case (Cons c rest)
    show ?thesis
    proof (cases "is_valid_and_clear (occupancy_grid v) c")
      case False
      then show ?thesis
        using assms active Cons
        by (auto simp: execute_navigation_step_def Let_def split: if_splits)
    next
      case clear: True
      show ?thesis
      proof (cases "target_orientation (fst c - fst current_logical_robot_cell_on_path)
                      (snd c - snd current_logical_robot_cell_on_path)")
        case Same_cell
        then show ?thesis
          using assms active Cons clear
          by (auto simp: execute_navigation_step_def Let_def)
      next
        case Invalid_step
        then show ?thesis
          using assms active Cons clear
          by (auto simp: execute_navigation_step_def Let_def)
      next
        case (Cardinal t)
        show ?thesis
        proof (cases "choose_action (robot_orientation_map_deg v) t")
          case None
          then show ?thesis
            using assms active Cons clear Cardinal
            by (auto simp: execute_navigation_step_def Let_def)
        next
          case (Some choice)
          obtain st cmd where choice: "choice = (st, cmd)" by (cases choice)
          have sc: "(st, cmd) \<in> {(NAV_STATE_MOVING_FORWARD, ''F''), (NAV_STATE_TURNING_RIGHT, ''R''),
                   (NAV_STATE_TURNING_LEFT, ''L'')}"
            using Some choice choose_action_some by simp
          obtain ok v1 where snd: "send_command tr cmd (v\<lparr> navigation_state := st \<rparr>) = (ok, v1)"
            by (cases "send_command tr cmd (v\<lparr> navigation_state := st \<rparr>)")
          have step: "execute_navigation_step now tr v =
              (if ok then Inr ((update_logical_state v1)
                              \<lparr> action_end_time := now + ACTION_DURATION_S,
                                action_timer_id := Some On_action_completed \<rparr>)
               else Inr v1)"
            using active Cons clear Cardinal Some choice snd
            by (auto simp: execute_navigation_step_def Let_def)
          show ?thesis
          proof (cases ok)
            case False
            then have "v' = v1" using assms step by simp
            moreover have "robot_orientation_map_deg v1 = robot_orientation_map_deg v"
              using send_command_heading [of tr cmd "v\<lparr> navigation_state := st \<rparr>"] snd by simp
            ultimately show ?thesis by simp
          next
            case True
            then have tr: "tr = Delivered"
              and v1: "v1 = v\<lparr> navigation_state := st,
                             robot_commands := robot_commands v @ [(cmd, tr)],
                             last_command_sent_successful := True \<rparr>"
              using send_command_True [of tr cmd "v\<lparr> navigation_state := st \<rparr>" v1] snd by simp_all
            have v': "v' = (update_logical_state v1)
                              \<lparr> action_end_time := now + ACTION_DURATION_S,
                                action_timer_id := Some On_action_completed \<rparr>"
              using assms step True by simp
            show ?thesis
              using sc tr by (auto simp: v' v1 update_logical_state_heading)
          qed
        qed
      qed
    qed
  qed
qed


lemma py_mod_360_more: "py_mod 450 360 = 90" "py_mod 540 360 = 180"
  by (simp_all add: py_mod_def)

lemma quarter_turns_cardinal:
  assumes "h \<in> {0, 90, 180, 270}"
  shows "py_mod (h + 90) 360 \<in> {0, 90, 180, 270}"
    and "py_mod (h - 90 + 360) 360 \<in> {0, 90, 180, 270}"
  using assms by (auto simp: py_mod_360_values py_mod_360_more)

lemma apply_event_heading:
  assumes "apply_event e u = Inr u'"
  shows "robot_orientation_map_deg u' = robot_orientation_map_deg u
     \<or> (\<exists>tr ip bind_ok. e = Toggle_connection tr ip bind_ok) \<and> robot_orientation_map_deg u' = 0
     \<or> (\<exists>now. e = Periodic_update now Delivered)
        \<and> ((robot_orientation_map_deg u' = py_mod (robot_orientation_map_deg u + 90) 360
             \<and> robot_commands u' = robot_commands u @ [(''R'', Delivered)])
           \<or> (robot_orientation_map_deg u' = py_mod (robot_orientation_map_deg u - 90 + 360) 360
             \<and> robot_commands u' = robot_commands u @ [(''L'', Delivered)]))"
proof (cases e)
  case (Toggle_connection tr ip bind_ok)
  then show ?thesis
    using assms toggle_connection_heading [of tr ip bind_ok u] by auto
next
  case (Periodic_update now tr)
  show ?thesis
  proof (cases "is_udp_running (process_queued_data u)")
    case True
    then have "execute_navigation_step now tr (process_queued_data u) = Inr u'"
      using assms Periodic_update by (simp add: periodic_update_def Let_def)
    from execute_step_heading [OF this] show ?thesis
      using Periodic_update by auto
  next
    case False
    then have "u' = process_queued_data u"
      using assms Periodic_update by (simp add: periodic_update_def Let_def)
    then show ?thesis by simp
  qed
qed (use assms in auto)

lemma apply_event_cardinal:
  assumes "apply_event e u = Inr u'" "robot_orientation_map_deg u \<in> {0, 90, 180, 270}"
  shows "robot_orientation_map_deg u' \<in> {0, 90, 180, 270}"
proof -
  from apply_event_heading [OF assms(1)]
  consider "robot_orientation_map_deg u' = robot_orientation_map_deg u"
    | "robot_orientation_map_deg u' = 0"
    | "robot_orientation_map_deg u' = py_mod (robot_orientation_map_deg u + 90) 360"
    | "robot_orientation_map_deg u' = py_mod (robot_orientation_map_deg u - 90 + 360) 360"
    by auto
  then show ?thesis
  proof cases
    case 1
    then show ?thesis using assms(2) by simp
  next
    case 2
    then show ?thesis by simp
  next
    case 3
    then show ?thesis using quarter_turns_cardinal(1) [OF assms(2)] by simp
  next
    case 4
    then show ?thesis using quarter_turns_cardinal(2) [OF assms(2)] by simp
  qed
qed

lemma run_events_cardinal:
  "run_events es u = Inr v \<Longrightarrow> robot_orientation_map_deg u \<in> {0, 90, 180, 270}
     \<Longrightarrow> robot_orientation_map_deg v \<in> {0, 90, 180, 270}"
proof (induction es arbitrary: u)
  case Nil
  then show ?case by simp
next
  case (Cons e es)
  then obtain u1 where u1: "apply_event e u = Inr u1" "run_events es u1 = Inr v"
    by (auto split: sum.splits)
  show ?case
    by (rule Cons.IH [OF u1(2) apply_event_cardinal [OF u1(1) Cons.prems(2)]])
qed

lemma toggle_connection_resets:
  "is_udp_running u \<or> ip \<noteq> [] \<Longrightarrow>
     robot_orientation_map_deg (toggle_connection tr ip bind_ok u) = 0"
  by (auto simp: toggle_connection_def start_udp_listener_def Let_def)

lemma plan_right: "plan_path zero_grid (Some (40, 41)) = Some (Planning_succeeded [(40, 41)])"
  by code_simp

lemma decay_zero_grid: "decay zero_grid = zero_grid"
  by (rule ext) (simp add: decay_def zero_grid_def decay_cell_zero)

lemma drain_queue_empty: "data_queue v = [] \<Longrightarrow> drain_queue n v b = (v, b)"
  by (cases n) simp_all

lemma sample_connect:
  "toggle_connection Delivered ''192.168.1.2'' True init_viewer
     = init_viewer\<lparr> is_udp_running := True \<rparr>"
  by (simp add: init_viewer_def toggle_connection_def start_udp_listener_def)

lemma sample_click:
  "handle_map_click False Delivered (40, 41) (init_viewer\<lparr> is_udp_running := True \<rparr>)
     = init_viewer\<lparr> is_udp_running := True, navigation_goal_cell := Some (40, 41),
                     navigation_state := NAV_STATE_PLANNING, planner_thread_alive := True \<rparr>"
  by (simp add: init_viewer_def handle_map_click_def in_grid_def GRID_DIMENSION_def
      zero_grid_def RENDER_THRESHOLD_def Let_def)

lemma sample_plan:
  "planner_finished Delivered
     (init_viewer\<lparr> is_udp_running := True, navigation_goal_cell := Some (40, 41),
                   navigation_state := NAV_STATE_PLANNING, planner_thread_alive := True \<rparr>)
     = init_viewer\<lparr> is_udp_running := True, navigation_goal_cell := Some (40, 41),
                     navigation_state := NAV_STATE_AWAITING_NEXT_STEP,
                     current_path := [(40, 41)] \<rparr>"
proof -
  have "occupancy_grid init_viewer = zero_grid"
    by (simp add: init_viewer_def)
  then show ?thesis
    by (simp add: planner_finished_def plan_right path_planning_succeeded_def Let_def)
       (simp add: init_viewer_def)
qed

lemma sample_turn:
  "periodic_update 5 Delivered
     (init_viewer\<lparr> is_udp_running := True, navigation_goal_cell := Some (40, 41),
                   navigation_state := NAV_STATE_AWAITING_NEXT_STEP,
                   current_path := [(40, 41)] \<rparr>)
     = Inr (init_viewer\<lparr> is_udp_running := True, navigation_goal_cell := Some (40, 41),
                     navigation_state := NAV_STATE_TURNING_RIGHT,
                     current_path := [(40, 41)],
                     robot_orientation_map_deg := 90,
                     action_end_time := 31 / 5,
                     action_timer_id := Some On_action_completed,
                     robot_commands := [(''R'', Delivered)] \<rparr>)"
proof -
  define u where "u = init_viewer\<lparr> is_udp_running := True, navigation_goal_cell := Some (40, 41),
                   navigation_state := NAV_STATE_AWAITING_NEXT_STEP,
                   current_path := [(40, 41)] \<rparr>"
  have p: "process_queued_data u = u"
    by (simp add: u_def process_queued_data_def init_viewer_def drain_queue_empty decay_zero_grid)
  have sel: "navigation_state u = NAV_STATE_AWAITING_NEXT_STEP" "action_end_time u = 0"
    "current_path u = [(40, 41)]" "occupancy_grid u = zero_grid"
    "robot_orientation_map_deg u = 0" "is_udp_running u"
    by (simp_all add: u_def init_viewer_def)
  have clear: "is_valid_and_clear zero_grid (40, 41)"
    by (simp add: zero_grid_clear in_grid_def GRID_DIMENSION_def)
  have tgt: "target_orientation (40 - fst current_logical_robot_cell_on_path)
       (41 - snd current_logical_robot_cell_on_path) = Cardinal 90"
    by (simp add: target_orientation_def center_cell)
  have ch: "choose_action 0 90 = Some (NAV_STATE_TURNING_RIGHT, ''R'')"
    by (rule choose_action_by_diff(2) [of 90 0 90]) (simp_all add: py_mod_360_values)
  have "execute_navigation_step 5 Delivered u =
     (case send_command Delivered ''R'' (u\<lparr> navigation_state := NAV_STATE_TURNING_RIGHT \<rparr>) of
        (True, v1) \<Rightarrow> Inr ((update_logical_state v1)
                              \<lparr> action_end_time := 5 + ACTION_DURATION_S,
                                action_timer_id := Some On_action_completed \<rparr>)
      | (False, v1) \<Rightarrow> Inr v1)"
    by (rule execute_step_cardinal [where c = "(40, 41)" and rest = "[]" and t = 90])
       (simp_all add: sel clear tgt ch)
  then have "execute_navigation_step 5 Delivered u =
      Inr (u\<lparr> navigation_state := NAV_STATE_TURNING_RIGHT,
               robot_orientation_map_deg := 90,
               action_end_time := 31 / 5,
               action_timer_id := Some On_action_completed,
               robot_commands := [(''R'', Delivered)] \<rparr>)"
    by (simp add: send_command_def update_logical_state_def Let_def ACTION_DURATION_S_def
        sel py_mod_360_values)
       (simp add: u_def init_viewer_def)
  then show ?thesis
    unfolding u_def [symmetric] by (simp add: periodic_update_def p sel) (simp add: u_def)
qed

lemma sample_stop:
  "timer_fires Delivered
     (init_viewer\<lparr> is_udp_running := True, navigation_goal_cell := Some (40, 41),
                     navigation_state := NAV_STATE_TURNING_RIGHT,
                     current_path := [(40, 41)],
                     robot_orientation_map_deg := 90,
                     action_end_time := 31 / 5,
                     action_timer_id := Some On_action_completed,
                     robot_commands := [(''R'', Delivered)] \<rparr>)
     = init_viewer\<lparr> is_udp_running := True, navigation_goal_cell := Some (40, 41),
                     navigation_state := NAV_STATE_AWAITING_NEXT_STEP,
                     current_path := [(40, 41)],
                     robot_orientation_map_deg := 90,
                     action_end_time := 31 / 5,
                     robot_commands := [(''R'', Delivered), (''S'', Delivered)] \<rparr>"
  by (simp add: timer_fires_def on_action_completed_def send_command_def Let_def init_viewer_def)

lemma sample_run:
  "run_events
     [Toggle_connection Delivered ''192.168.1.2'' True, Map_click False Delivered (40, 41),
      Planner_finished Delivered, Periodic_update 5 Delivered, Timer_fires Delivered]
     init_viewer
   = Inr (init_viewer\<lparr> is_udp_running := True, navigation_goal_cell := Some (40, 41),
                     navigation_state := NAV_STATE_AWAITING_NEXT_STEP,
                     current_path := [(40, 41)],
                     robot_orientation_map_deg := 90,
                     action_end_time := 31 / 5,
                     robot_commands := [(''R'', Delivered), (''S'', Delivered)] \<rparr>)"
  by (simp add: sample_connect sample_click sample_plan sample_turn sample_stop)


text \<open>
  C9. \<open>robot_orientation_map_deg\<close> is 0 in the initial viewer and is one of 0, 90, 180 and
  270 after every run of events from it. Connecting and disconnecting the sensor feed
  set it to 0. One event changes it in no other way than this: a toggle of the
  connection sets it to 0, and a periodic update whose turn command was delivered adds
  90 modulo 360 (after \<open>R\<close>) or subtracts 90 modulo 360 (after \<open>L\<close>).
\<close>

theorem heading_is_cardinal:
  "robot_orientation_map_deg init_viewer = 0
   \<and> (run_events es init_viewer = Inr v \<longrightarrow> robot_orientation_map_deg v \<in> {0, 90, 180, 270})
   \<and> (is_udp_running u \<or> ip \<noteq> [] \<longrightarrow>
        robot_orientation_map_deg (toggle_connection tr ip bind_ok u) = 0)
   \<and> (apply_event e u = Inr u' \<longrightarrow>
        robot_orientation_map_deg u' = robot_orientation_map_deg u
        \<or> (\<exists>tr ip bind_ok. e = Toggle_connection tr ip bind_ok) \<and> robot_orientation_map_deg u' = 0
        \<or> (\<exists>now. e = Periodic_update now Delivered)
           \<and> ((robot_orientation_map_deg u' = py_mod (robot_orientation_map_deg u + 90) 360
                \<and> robot_commands u' = robot_commands u @ [(''R'', Delivered)])
              \<or> (robot_orientation_map_deg u' = py_mod (robot_orientation_map_deg u - 90 + 360) 360
                \<and> robot_commands u' = robot_commands u @ [(''L'', Delivered)])))"
proof -
  have init: "robot_orientation_map_deg init_viewer = 0"
    by (simp add: init_viewer_def)
  have "robot_orientation_map_deg v \<in> {0, 90, 180, 270}" if "run_events es init_viewer = Inr v"
    by (rule run_events_cardinal [OF that]) (simp add: init)
  then show ?thesis
    using init toggle_connection_resets [of u ip tr bind_ok] apply_event_heading [of e u u']
    by blast
qed

theorem heading_is_cardinal_witness:
  "run_events
     [Toggle_connection Delivered ''192.168.1.2'' True, Map_click False Delivered (40, 41),
      Planner_finished Delivered, Periodic_update 5 Delivered, Timer_fires Delivered]
     init_viewer
   = Inr (init_viewer\<lparr> is_udp_running := True, navigation_goal_cell := Some (40, 41),
                     navigation_state := NAV_STATE_AWAITING_NEXT_STEP,
                     current_path := [(40, 41)],
                     robot_orientation_map_deg := 90,
                     action_end_time := 31 / 5,
                     robot_commands := [(''R'', Delivered), (''S'', Delivered)] \<rparr>)
   \<and> robot_orientation_map_deg
        (init_viewer\<lparr> is_udp_running := True, navigation_goal_cell := Some (40, 41),
                     navigation_state := NAV_STATE_AWAITING_NEXT_STEP,
                     current_path := [(40, 41)],
                     robot_orientation_map_deg := 90,
                     action_end_time := 31 / 5,
                     robot_commands := [(''R'', Delivered), (''S'', Delivered)] \<rparr>)
       \<in> {0, 90, 180, 270}
   \<and> robot_orientation_map_deg (toggle_connection Delivered ''192.168.1.2'' True init_viewer) = 0
   \<and> robot_commands
        (init_viewer\<lparr> is_udp_running := True, navigation_goal_cell := Some (40, 41),
                     navigation_state := NAV_STATE_TURNING_RIGHT,
                     current_path := [(40, 41)],
                     robot_orientation_map_deg := 90,
                     action_end_time := 31 / 5,
                     action_timer_id := Some On_action_completed,
                     robot_commands := [(''R'', Delivered)] \<rparr>)
       = robot_commands
           (init_viewer\<lparr> is_udp_running := True, navigation_goal_cell := Some (40, 41),
                   navigation_state := NAV_STATE_AWAITING_NEXT_STEP,
                   current_path := [(40, 41)] \<rparr>) @ [(''R'', Delivered)]"
proof -
  define es where "es = [Toggle_connection Delivered ''192.168.1.2'' True,
        Map_click False Delivered (40, 41), Planner_finished Delivered,
        Periodic_update 5 Delivered, Timer_fires Delivered]"
  define r where "r = init_viewer\<lparr> is_udp_running := True, navigation_goal_cell := Some (40, 41),
                     navigation_state := NAV_STATE_AWAITING_NEXT_STEP,
                     current_path := [(40, 41)],
                     robot_orientation_map_deg := 90,
                     action_end_time := 31 / 5,
                     robot_commands := [(''R'', Delivered), (''S'', Delivered)] \<rparr>"
  define u where "u = init_viewer\<lparr> is_udp_running := True, navigation_goal_cell := Some (40, 41),
                   navigation_state := NAV_STATE_AWAITING_NEXT_STEP,
                   current_path := [(40, 41)] \<rparr>"
  define u' where "u' = init_viewer\<lparr> is_udp_running := True, navigation_goal_cell := Some (40, 41),
                     navigation_state := NAV_STATE_TURNING_RIGHT,
                     current_path := [(40, 41)],
                     robot_orientation_map_deg := 90,
                     action_end_time := 31 / 5,
                     action_timer_id := Some On_action_completed,
                     robot_commands := [(''R'', Delivered)] \<rparr>"
  note inst = heading_is_cardinal [where es = es and v = r and u = u
      and ip = "''192.168.1.2''" and tr = Delivered and bind_ok = True
      and e = "Periodic_update 5 Delivered" and u' = u']
  have run: "run_events es init_viewer = Inr r"
    unfolding es_def r_def by (rule sample_run)
  have step: "apply_event (Periodic_update 5 Delivered) u = Inr u'"
    by (simp add: u_def u'_def sample_turn)
  have inv: "robot_orientation_map_deg r \<in> {0, 90, 180, 270}"
    by (rule inst [THEN conjunct2, THEN conjunct1, THEN mp, OF run])
  have sel: "robot_orientation_map_deg u = 0" "robot_orientation_map_deg u' = 90"
    by (simp_all add: u_def u'_def init_viewer_def)
  have turned: "robot_commands u' = robot_commands u @ [(''R'', Delivered)]"
    using inst [THEN conjunct2, THEN conjunct2, THEN conjunct2, THEN mp, OF step]
    by (auto simp: sel py_mod_360_values)
  have reset: "robot_orientation_map_deg (toggle_connection Delivered ''192.168.1.2'' True init_viewer) = 0"
    by (rule heading_is_cardinal [where u = init_viewer and ip = "''192.168.1.2''",
          THEN conjunct2, THEN conjunct2, THEN conjunct1, THEN mp]) simp
  show ?thesis
    using run inv turned reset unfolding es_def r_def u_def u'_def by blast
qed

section \<open>Properties of timed commands\<close>

lemma send_command_stop:
  "send_command tr ''S'' v =
     (if tr = Delivered
      then (True, v\<lparr> robot_commands := robot_commands v @ [(''S'', tr)],
                      last_command_sent_successful := True \<rparr>)
      else (False, handle_command_send_error
                     (v\<lparr> robot_commands := robot_commands v @ [(''S'', tr)] \<rparr>)))"
  by (cases tr) (simp_all add: send_command_def Let_def)

lemma execute_step_delivered:
  assumes active: "navigation_state v \<in> {NAV_STATE_AWAITING_NEXT_STEP, NAV_STATE_TURNING_LEFT,
                      NAV_STATE_TURNING_RIGHT, NAV_STATE_MOVING_FORWARD}"
    and timer: "action_end_time v \<le> now"
    and path: "current_path v = c # rest"
    and clear: "is_valid_and_clear (occupancy_grid v) c"
    and card: "target_orientation (fst c - fst current_logical_robot_cell_on_path)
                 (snd c - snd current_logical_robot_cell_on_path) = Cardinal t"
    and choice: "choose_action (robot_orientation_map_deg v) t = Some (st, cmd)"
  shows "execute_navigation_step now Delivered v =
     Inr ((update_logical_state
             (v\<lparr> navigation_state := st,
                  robot_commands := robot_commands v @ [(cmd, Delivered)],
                  last_command_sent_successful := True \<rparr>))
            \<lparr> action_end_time := now + ACTION_DURATION_S,
              action_timer_id := Some On_action_completed \<rparr>)"
proof -
  have st: "st \<in> {NAV_STATE_MOVING_FORWARD, NAV_STATE_TURNING_RIGHT, NAV_STATE_TURNING_LEFT}"
    using choose_action_some [OF choice] by auto
  have "send_command Delivered cmd (v\<lparr> navigation_state := st \<rparr>) =
     (True, v\<lparr> navigation_state := st,
               robot_commands := robot_commands v @ [(cmd, Delivered)],
               last_command_sent_successful := True \<rparr>)"
    using st by (subst send_command_active) simp_all
  then show ?thesis
    by (simp add: execute_step_cardinal [OF active timer path clear card choice])
qed

lemma execute_step_pending:
  "now < action_end_time v \<Longrightarrow> execute_navigation_step now tr v = Inr v"
  by (simp add: execute_navigation_step_def)

lemma on_action_completed_stop:
  assumes "last_command_sent_successful v"
  shows "robot_commands (on_action_completed tr v) = robot_commands v @ [(''S'', tr)]"
    and "current_path (on_action_completed tr v) = current_path v"
    and "action_timer_id (on_action_completed tr v) = None"
  using assms
  by (simp_all add: on_action_completed_def send_command_stop handle_command_send_error_def Let_def)

lemma on_action_completed_state:
  assumes "last_command_sent_successful v"
    and "navigation_state v \<in> {NAV_STATE_MOVING_FORWARD, NAV_STATE_TURNING_LEFT,
            NAV_STATE_TURNING_RIGHT, NAV_STATE_AWAITING_NEXT_STEP}"
  shows "tr \<noteq> Delivered \<Longrightarrow> navigation_state (on_action_completed tr v) = NAV_STATE_ROBOT_CMD_ERROR"
    and "tr = Delivered \<Longrightarrow> current_path v \<noteq> [] \<Longrightarrow>
           navigation_state (on_action_completed tr v) = NAV_STATE_AWAITING_NEXT_STEP"
  using assms
  by (auto simp: on_action_completed_def send_command_stop handle_command_send_error_def Let_def)


lemma sample_forward:
  "periodic_update 5 Delivered
     (init_viewer\<lparr> is_udp_running := True, navigation_goal_cell := Some (38, 40),
                   navigation_state := NAV_STATE_AWAITING_NEXT_STEP,
                   current_path := [(39, 40), (38, 40)] \<rparr>)
     = Inr (init_viewer\<lparr> is_udp_running := True, navigation_goal_cell := Some (38, 40),
                     navigation_state := NAV_STATE_MOVING_FORWARD,
                     current_path := [(38, 40)],
                     action_end_time := 31 / 5,
                     action_timer_id := Some On_action_completed,
                     robot_commands := [(''F'', Delivered)] \<rparr>)"
proof -
  define u where "u = init_viewer\<lparr> is_udp_running := True, navigation_goal_cell := Some (38, 40),
                   navigation_state := NAV_STATE_AWAITING_NEXT_STEP,
                   current_path := [(39, 40), (38, 40)] \<rparr>"
  have p: "process_queued_data u = u"
    by (simp add: u_def process_queued_data_def init_viewer_def drain_queue_empty decay_zero_grid)
  have sel: "navigation_state u = NAV_STATE_AWAITING_NEXT_STEP" "action_end_time u = 0"
    "current_path u = [(39, 40), (38, 40)]" "occupancy_grid u = zero_grid"
    "robot_orientation_map_deg u = 0" "is_udp_running u" "robot_commands u = []"
    by (simp_all add: u_def init_viewer_def)
  have clear: "is_valid_and_clear zero_grid (39, 40)"
    by (simp add: zero_grid_clear in_grid_def GRID_DIMENSION_def)
  have tgt: "target_orientation (39 - fst current_logical_robot_cell_on_path)
       (40 - snd current_logical_robot_cell_on_path) = Cardinal 0"
    by (simp add: target_orientation_def center_cell)
  have ch: "choose_action 0 0 = Some (NAV_STATE_MOVING_FORWARD, ''F'')"
    by (rule choose_action_by_diff(1) [of 0 0 0]) (simp_all add: py_mod_360_values)
  have "execute_navigation_step 5 Delivered u =
     Inr ((update_logical_state
             (u\<lparr> navigation_state := NAV_STATE_MOVING_FORWARD,
                  robot_commands := robot_commands u @ [(''F'', Delivered)],
                  last_command_sent_successful := True \<rparr>))
            \<lparr> action_end_time := 5 + ACTION_DURATION_S,
              action_timer_id := Some On_action_completed \<rparr>)"
    by (rule execute_step_delivered [where c = "(39, 40)" and rest = "[(38, 40)]" and t = 0])
       (simp_all add: sel clear tgt ch)
  then have "execute_navigation_step 5 Delivered u =
      Inr (u\<lparr> navigation_state := NAV_STATE_MOVING_FORWARD,
               current_path := [(38, 40)],
               action_end_time := 31 / 5,
               action_timer_id := Some On_action_completed,
               robot_commands := [(''F'', Delivered)] \<rparr>)"
    by (simp add: update_logical_state_def ACTION_DURATION_S_def sel)
       (simp add: u_def init_viewer_def)
  then show ?thesis
    unfolding u_def [symmetric] by (simp add: periodic_update_def p sel) (simp add: u_def)
qed

lemma sample_forward_stop:
  "timer_fires Delivered
     (init_viewer\<lparr> is_udp_running := True, navigation_goal_cell := Some (38, 40),
                     navigation_state := NAV_STATE_MOVING_FORWARD,
                     current_path := [(38, 40)],
                     action_end_time := 31 / 5,
                     action_timer_id := Some On_action_completed,
                     robot_commands := [(''F'', Delivered)] \<rparr>)
     = init_viewer\<lparr> is_udp_running := True, navigation_goal_cell := Some (38, 40),
                     navigation_state := NAV_STATE_AWAITING_NEXT_STEP,
                     current_path := [(38, 40)],
                     action_end_time := 31 / 5,
                     robot_commands := [(''F'', Delivered), (''S'', Delivered)] \<rparr>"
  by (simp add: timer_fires_def on_action_completed_def send_command_def Let_def init_viewer_def)

text \<open>
  C7, as stated, fails: the path head is popped, and the heading is turned, in the same
  step that sends the forward or the turn command, while the timer is still pending and
  before any stop is sent; when the timer fires, the stop is sent and neither the path
  nor the heading changes.
\<close>

theorem pop_and_turn_precede_stop_counterexample:
  "periodic_update 5 Delivered
     (init_viewer\<lparr> is_udp_running := True, navigation_goal_cell := Some (38, 40),
                   navigation_state := NAV_STATE_AWAITING_NEXT_STEP,
                   current_path := [(39, 40), (38, 40)] \<rparr>)
     = Inr (init_viewer\<lparr> is_udp_running := True, navigation_goal_cell := Some (38, 40),
                     navigation_state := NAV_STATE_MOVING_FORWARD,
                     current_path := [(38, 40)],
                     action_end_time := 31 / 5,
                     action_timer_id := Some On_action_completed,
                     robot_commands := [(''F'', Delivered)] \<rparr>)
   \<and> timer_fires Delivered
       (init_viewer\<lparr> is_udp_running := True, navigation_goal_cell := Some (38, 40),
                     navigation_state := NAV_STATE_MOVING_FORWARD,
                     current_path := [(38, 40)],
                     action_end_time := 31 / 5,
                     action_timer_id := Some On_action_completed,
                     robot_commands := [(''F'', Delivered)] \<rparr>)
     = init_viewer\<lparr> is_udp_running := True, navigation_goal_cell := Some (38, 40),
                     navigation_state := NAV_STATE_AWAITING_NEXT_STEP,
                     current_path := [(38, 40)],
                     action_end_time := 31 / 5,
                     robot_commands := [(''F'', Delivered), (''S'', Delivered)] \<rparr>
   \<and> periodic_update 5 Delivered
     (init_viewer\<lparr> is_udp_running := True, navigation_goal_cell := Some (40, 41),
                   navigation_state := NAV_STATE_AWAITING_NEXT_STEP,
                   current_path := [(40, 41)] \<rparr>)
     = Inr (init_viewer\<lparr> is_udp_running := True, navigation_goal_cell := Some (40, 41),
                     navigation_state := NAV_STATE_TURNING_RIGHT,
                     current_path := [(40, 41)],
                     robot_orientation_map_deg := 90,
                     action_end_time := 31 / 5,
                     action_timer_id := Some On_action_completed,
                     robot_commands := [(''R'', Delivered)] \<rparr>)
   \<and> timer_fires Delivered
     (init_viewer\<lparr> is_udp_running := True, navigation_goal_cell := Some (40, 41),
                     navigation_state := NAV_STATE_TURNING_RIGHT,
                     current_path := [(40, 41)],
                     robot_orientation_map_deg := 90,
                     action_end_time := 31 / 5,
                     action_timer_id := Some On_action_completed,
                     robot_commands := [(''R'', Delivered)] \<rparr>)
     = init_viewer\<lparr> is_udp_running := True, navigation_goal_cell := Some (40, 41),
                     navigation_state := NAV_STATE_AWAITING_NEXT_STEP,
                     current_path := [(40, 41)],
                     robot_orientation_map_deg := 90,
                     action_end_time := 31 / 5,
                     robot_commands := [(''R'', Delivered), (''S'', Delivered)] \<rparr>"
  by (intro conjI sample_forward sample_forward_stop sample_turn sample_stop)

text \<open>
  C7, amended. When a forward or turn command is delivered, the same step pops the path
  head (forward) or changes the heading by 90 degrees modulo 360 (turn), keeps the
  motion state and arms the action timer for \<open>ACTION_DURATION_S\<close>. No step decides
  anything before that time. When the timer fires after a delivered command, a stop
  command is sent and the timer is cleared, with the path and the heading as they
  were; from a motion state or \<open>NAV_STATE_AWAITING_NEXT_STEP\<close>, a failed stop gives
  \<open>NAV_STATE_ROBOT_CMD_ERROR\<close>, and a delivered stop with cells left on the path gives
  \<open>NAV_STATE_AWAITING_NEXT_STEP\<close>.
\<close>

theorem timed_command_sequence:
  "(navigation_state v \<in> {NAV_STATE_AWAITING_NEXT_STEP, NAV_STATE_TURNING_LEFT,
                            NAV_STATE_TURNING_RIGHT, NAV_STATE_MOVING_FORWARD}
      \<and> action_end_time v \<le> now
      \<and> current_path v = c # rest
      \<and> is_valid_and_clear (occupancy_grid v) c
      \<and> target_orientation (fst c - fst current_logical_robot_cell_on_path)
           (snd c - snd current_logical_robot_cell_on_path) = Cardinal t
      \<and> choose_action (robot_orientation_map_deg v) t = Some (st, cmd) \<longrightarrow>
      (case execute_navigation_step now Delivered v of
         Inl e \<Rightarrow> False
       | Inr v' \<Rightarrow>
           current_path v' = (if st = NAV_STATE_MOVING_FORWARD then rest else c # rest)
           \<and> robot_orientation_map_deg v' =
               (if st = NAV_STATE_TURNING_LEFT
                then py_mod (robot_orientation_map_deg v - 90 + 360) 360
                else if st = NAV_STATE_TURNING_RIGHT
                then py_mod (robot_orientation_map_deg v + 90) 360
                else robot_orientation_map_deg v)
           \<and> navigation_state v' = st
           \<and> action_timer_id v' = Some On_action_completed
           \<and> action_end_time v' = now + ACTION_DURATION_S
           \<and> robot_commands v' = robot_commands v @ [(cmd, Delivered)]))
   \<and> (now' < action_end_time w \<longrightarrow> execute_navigation_step now' tr w = Inr w)
   \<and> (action_timer_id w = Some On_action_completed \<and> last_command_sent_successful w \<longrightarrow>
        robot_commands (timer_fires tr w) = robot_commands w @ [(''S'', tr)]
        \<and> current_path (timer_fires tr w) = current_path w
        \<and> robot_orientation_map_deg (timer_fires tr w) = robot_orientation_map_deg w
        \<and> action_timer_id (timer_fires tr w) = None
        \<and> (navigation_state w \<in> {NAV_STATE_MOVING_FORWARD, NAV_STATE_TURNING_LEFT,
                                   NAV_STATE_TURNING_RIGHT, NAV_STATE_AWAITING_NEXT_STEP} \<longrightarrow>
             (tr \<noteq> Delivered \<longrightarrow>
                navigation_state (timer_fires tr w) = NAV_STATE_ROBOT_CMD_ERROR)
             \<and> (tr = Delivered \<and> current_path w \<noteq> [] \<longrightarrow>
                  navigation_state (timer_fires tr w) = NAV_STATE_AWAITING_NEXT_STEP)))"
proof (intro conjI impI)
  assume a: "navigation_state v \<in> {NAV_STATE_AWAITING_NEXT_STEP, NAV_STATE_TURNING_LEFT,
                            NAV_STATE_TURNING_RIGHT, NAV_STATE_MOVING_FORWARD}
      \<and> action_end_time v \<le> now
      \<and> current_path v = c # rest
      \<and> is_valid_and_clear (occupancy_grid v) c
      \<and> target_orientation (fst c - fst current_logical_robot_cell_on_path)
           (snd c - snd current_logical_robot_cell_on_path) = Cardinal t
      \<and> choose_action (robot_orientation_map_deg v) t = Some (st, cmd)"
  have active: "navigation_state v \<in> {NAV_STATE_AWAITING_NEXT_STEP, NAV_STATE_TURNING_LEFT,
                              NAV_STATE_TURNING_RIGHT, NAV_STATE_MOVING_FORWARD}"
    and timer: "action_end_time v \<le> now"
    and path: "current_path v = c # rest"
    and clear: "is_valid_and_clear (occupancy_grid v) c"
    and card: "target_orientation (fst c - fst current_logical_robot_cell_on_path)
             (snd c - snd current_logical_robot_cell_on_path) = Cardinal t"
    and choice: "choose_action (robot_orientation_map_deg v) t = Some (st, cmd)"
    by (rule conjunct1 [OF a], rule conjunct1 [OF conjunct2 [OF a]],
        rule conjunct1 [OF conjunct2 [OF conjunct2 [OF a]]],
        rule conjunct1 [OF conjunct2 [OF conjunct2 [OF conjunct2 [OF a]]]],
        rule conjunct1 [OF conjunct2 [OF conjunct2 [OF conjunct2 [OF conjunct2 [OF a]]]]],
        rule conjunct2 [OF conjunct2 [OF conjunct2 [OF conjunct2 [OF conjunct2 [OF a]]]]])
  have st: "st \<in> {NAV_STATE_MOVING_FORWARD, NAV_STATE_TURNING_RIGHT, NAV_STATE_TURNING_LEFT}"
    using choose_action_some [OF choice] by auto
  show "case execute_navigation_step now Delivered v of
         Inl e \<Rightarrow> False
       | Inr v' \<Rightarrow>
           current_path v' = (if st = NAV_STATE_MOVING_FORWARD then rest else c # rest)
           \<and> robot_orientation_map_deg v' =
               (if st = NAV_STATE_TURNING_LEFT
                then py_mod (robot_orientation_map_deg v - 90 + 360) 360
                else if st = NAV_STATE_TURNING_RIGHT
                then py_mod (robot_orientation_map_deg v + 90) 360
                else robot_orientation_map_deg v)
           \<and> navigation_state v' = st
           \<and> action_timer_id v' = Some On_action_completed
           \<and> action_end_time v' = now + ACTION_DURATION_S
           \<and> robot_commands v' = robot_commands v @ [(cmd, Delivered)]"
    unfolding execute_step_delivered [OF active timer path clear card choice]
    using st path by (auto simp: update_logical_state_def)
next
  assume "now' < action_end_time w"
  then show "execute_navigation_step now' tr w = Inr w"
    by (rule execute_step_pending)
next
  assume b: "action_timer_id w = Some On_action_completed \<and> last_command_sent_successful w"
  then have tf: "timer_fires tr w = on_action_completed tr w"
    by (simp add: timer_fires_def)
  note ok = conjunct2 [OF b]
  show "robot_commands (timer_fires tr w) = robot_commands w @ [(''S'', tr)]"
    "current_path (timer_fires tr w) = current_path w"
    "action_timer_id (timer_fires tr w) = None"
    unfolding tf by (rule on_action_completed_stop [OF ok])+
  show "robot_orientation_map_deg (timer_fires tr w) = robot_orientation_map_deg w"
    by simp
  assume m: "navigation_state w \<in> {NAV_STATE_MOVING_FORWARD, NAV_STATE_TURNING_LEFT,
                                   NAV_STATE_TURNING_RIGHT, NAV_STATE_AWAITING_NEXT_STEP}"
  show "navigation_state (timer_fires tr w) = NAV_STATE_ROBOT_CMD_ERROR" if "tr \<noteq> Delivered"
    unfolding tf by (rule on_action_completed_state(1) [OF ok m that])
  show "navigation_state (timer_fires tr w) = NAV_STATE_AWAITING_NEXT_STEP"
    if "tr = Delivered \<and> current_path w \<noteq> []"
    unfolding tf by (rule on_action_completed_state(2) [OF ok m conjunct1 [OF that] conjunct2 [OF that]])
qed

theorem timed_command_sequence_witness:
  "(case execute_navigation_step 5 Delivered
           (init_viewer\<lparr> is_udp_running := True, navigation_goal_cell := Some (40, 41),
                   navigation_state := NAV_STATE_AWAITING_NEXT_STEP,
                   current_path := [(40, 41)] \<rparr>) of
      Inl e \<Rightarrow> False
    | Inr v' \<Rightarrow> current_path v' = [(40, 41)]
        \<and> robot_orientation_map_deg v' = 90
        \<and> navigation_state v' = NAV_STATE_TURNING_RIGHT
        \<and> action_timer_id v' = Some On_action_completed
        \<and> action_end_time v' = 5 + ACTION_DURATION_S
        \<and> robot_commands v' = [(''R'', Delivered)])
   \<and> execute_navigation_step 6 Delivered
        (init_viewer\<lparr> is_udp_running := True, navigation_goal_cell := Some (40, 41),
                     navigation_state := NAV_STATE_TURNING_RIGHT,
                     current_path := [(40, 41)],
                     robot_orientation_map_deg := 90,
                     action_end_time := 31 / 5,
                     action_timer_id := Some On_action_completed,
                     robot_commands := [(''R'', Delivered)] \<rparr>)
       = Inr (init_viewer\<lparr> is_udp_running := True, navigation_goal_cell := Some (40, 41),
                     navigation_state := NAV_STATE_TURNING_RIGHT,
                     current_path := [(40, 41)],
                     robot_orientation_map_deg := 90,
                     action_end_time := 31 / 5,
                     action_timer_id := Some On_action_completed,
                     robot_commands := [(''R'', Delivered)] \<rparr>)
   \<and> robot_commands (timer_fires Delivered
        (init_viewer\<lparr> is_udp_running := True, navigation_goal_cell := Some (40, 41),
                     navigation_state := NAV_STATE_TURNING_RIGHT,
                     current_path := [(40, 41)],
                     robot_orientation_map_deg := 90,
                     action_end_time := 31 / 5,
                     action_timer_id := Some On_action_completed,
                     robot_commands := [(''R'', Delivered)] \<rparr>))
       = [(''R'', Delivered), (''S'', Delivered)]
   \<and> navigation_state (timer_fires Delivered
        (init_viewer\<lparr> is_udp_running := True, navigation_goal_cell := Some (40, 41),
                     navigation_state := NAV_STATE_TURNING_RIGHT,
                     current_path := [(40, 41)],
                     robot_orientation_map_deg := 90,
                     action_end_time := 31 / 5,
                     action_timer_id := Some On_action_completed,
                     robot_commands := [(''R'', Delivered)] \<rparr>))
       = NAV_STATE_AWAITING_NEXT_STEP"
proof -
  define u where "u = init_viewer\<lparr> is_udp_running := True, navigation_goal_cell := Some (40, 41),
                   navigation_state := NAV_STATE_AWAITING_NEXT_STEP,
                   current_path := [(40, 41)] \<rparr>"
  define w where "w = init_viewer\<lparr> is_udp_running := True, navigation_goal_cell := Some (40, 41),
                     navigation_state := NAV_STATE_TURNING_RIGHT,
                     current_path := [(40, 41)],
                     robot_orientation_map_deg := 90,
                     action_end_time := 31 / 5,
                     action_timer_id := Some On_action_completed,
                     robot_commands := [(''R'', Delivered)] \<rparr>"
  note inst = timed_command_sequence [where v = u and now = 5 and c = "(40, 41)" and rest = "[]"
      and t = 90 and st = NAV_STATE_TURNING_RIGHT and cmd = "''R''" and w = w and now' = 6
      and tr = Delivered]
  have sel: "navigation_state u = NAV_STATE_AWAITING_NEXT_STEP" "action_end_time u = 0"
    "current_path u = [(40, 41)]" "occupancy_grid u = zero_grid"
    "robot_orientation_map_deg u = 0" "robot_commands u = []"
    by (simp_all add: u_def init_viewer_def)
  have selw: "action_end_time w = 31 / 5" "action_timer_id w = Some On_action_completed"
    "last_command_sent_successful w" "navigation_state w = NAV_STATE_TURNING_RIGHT"
    "current_path w = [(40, 41)]" "robot_commands w = [(''R'', Delivered)]"
    by (simp_all add: w_def init_viewer_def)
  have clear: "is_valid_and_clear zero_grid (40, 41)"
    by (simp add: zero_grid_clear in_grid_def GRID_DIMENSION_def)
  have tgt: "target_orientation (40 - fst current_logical_robot_cell_on_path)
       (41 - snd current_logical_robot_cell_on_path) = Cardinal 90"
    by (simp add: target_orientation_def center_cell)
  have ch: "choose_action 0 90 = Some (NAV_STATE_TURNING_RIGHT, ''R'')"
    by (rule choose_action_by_diff(2) [of 90 0 90]) (simp_all add: py_mod_360_values)
  have a: "case execute_navigation_step 5 Delivered u of
      Inl e \<Rightarrow> False
    | Inr v' \<Rightarrow> current_path v' = [(40, 41)]
        \<and> robot_orientation_map_deg v' = 90
        \<and> navigation_state v' = NAV_STATE_TURNING_RIGHT
        \<and> action_timer_id v' = Some On_action_completed
        \<and> action_end_time v' = 5 + ACTION_DURATION_S
        \<and> robot_commands v' = [(''R'', Delivered)]"
    using inst [THEN conjunct1, THEN mp]
    by (auto simp: sel clear tgt ch py_mod_360_values split: sum.splits)
  have b: "execute_navigation_step 6 Delivered w = Inr w"
    by (rule inst [THEN conjunct2, THEN conjunct1, THEN mp]) (simp add: selw)
  have c: "robot_commands (timer_fires Delivered w) = [(''R'', Delivered), (''S'', Delivered)]
     \<and> navigation_state (timer_fires Delivered w) = NAV_STATE_AWAITING_NEXT_STEP"
    using inst [THEN conjunct2, THEN conjunct2, THEN mp]
    by (simp add: selw)
  show ?thesis
    using a b c unfolding u_def w_def by blast
qed

section \<open>Properties of the planner: soundness\<close>

lemma walk_append: "walk a (xs @ [c]) = (walk a xs \<and> adjacent (last (a # xs)) c)"
  by (induction xs arbitrary: a) auto

lemma offsets_adjacent:
  "d \<in> set neighbor_offsets \<Longrightarrow> adjacent c (fst c + fst d, snd c + snd d)"
  by (auto simp: neighbor_offsets_def adjacent_def)

lemma heap_min_in: "heap_min m xs \<in> set (m # xs)"
  by (induction xs arbitrary: m) auto

lemma heappop_Some:
  assumes "heappop h = Some (m, rest)"
  shows "m \<in> set h \<and> rest = remove1 m h"
proof (cases h)
  case Nil
  then show ?thesis using assms by (simp add: heappop_def)
next
  case (Cons x xs)
  then have "m = heap_min x xs" "rest = remove1 m h"
    using assms by (auto simp: heappop_def Let_def)
  then show ?thesis using heap_min_in [of x xs] Cons by simp
qed

lemma heappop_nonempty: "h \<noteq> [] \<Longrightarrow> \<exists>m. heappop h = Some (m, remove1 m h)"
  by (cases h) (simp_all add: heappop_def Let_def)

lemma planner_invD:
  assumes "planner_inv g start s"
  shows "open_set_hash s = cell_of ` set (open_set s)"
    and "distinct (map cell_of (open_set s))"
    and "\<And>c. c \<in> open_set_hash s \<Longrightarrow> c = start \<or> came_from s c \<noteq> None"
    and "\<And>c p. came_from s c = Some p \<Longrightarrow> is_valid_and_clear g c"
    and "\<And>c p. came_from s c = Some p \<Longrightarrow> adjacent p c"
    and "\<And>c p. came_from s c = Some p \<Longrightarrow> p = start \<or> came_from s p \<noteq> None"
    and "\<And>c p. came_from s c = Some p \<Longrightarrow> g_score s p < g_score s c"
    and "g_score s start = 0"
  using assms unfolding planner_inv_def by blast+

lemma planner_invI:
  assumes "open_set_hash s = cell_of ` set (open_set s)"
    and "distinct (map cell_of (open_set s))"
    and "\<And>c. c \<in> open_set_hash s \<Longrightarrow> c = start \<or> came_from s c \<noteq> None"
    and "\<And>c p. came_from s c = Some p \<Longrightarrow>
           is_valid_and_clear g c \<and> adjacent p c
           \<and> (p = start \<or> came_from s p \<noteq> None)
           \<and> g_score s p < g_score s c"
    and "g_score s start = 0"
  shows "planner_inv g start s"
  using assms unfolding planner_inv_def by blast

lemma explore_neighbor_cases:
  fixes s :: astar
  defines "n \<equiv> \<lambda>cur d. (fst cur + fst d, snd cur + snd d)"
  shows "explore_neighbor g goal cur s d =
     (if is_valid_and_clear g (n cur d) \<and> g_score s cur + 1 < g_score s (n cur d)
      then (if n cur d \<notin> open_set_hash s
            then s\<lparr> came_from := (came_from s)(n cur d \<mapsto> cur),
                    g_score := (g_score s)(n cur d := g_score s cur + 1),
                    f_score := (f_score s)(n cur d := g_score s cur + 1 + enat (heuristic (n cur d) goal)),
                    count := count s + 1,
                    open_set := open_set s @ [(g_score s cur + 1 + enat (heuristic (n cur d) goal),
                                              count s + 1, n cur d)],
                    open_set_hash := insert (n cur d) (open_set_hash s) \<rparr>
            else s\<lparr> came_from := (came_from s)(n cur d \<mapsto> cur),
                    g_score := (g_score s)(n cur d := g_score s cur + 1),
                    f_score := (f_score s)(n cur d := g_score s cur + 1 + enat (heuristic (n cur d) goal)) \<rparr>)
      else s)"
  by (simp add: explore_neighbor_def Let_def n_def heappush_def)

lemma enat_succ_less: "(x :: enat) + 1 < y \<Longrightarrow> x < x + 1"
  by (cases x) (simp_all add: one_enat_def)

lemma explore_neighbor_inv:
  assumes inv: "planner_inv g start s"
    and cur: "cur = start \<or> came_from s cur \<noteq> None"
    and d: "d \<in> set neighbor_offsets"
  shows "planner_inv g start (explore_neighbor g goal cur s d)
     \<and> (cur = start \<or> came_from (explore_neighbor g goal cur s d) cur \<noteq> None)"
proof -
  define n where "n = (fst cur + fst d, snd cur + snd d)"
  have adj: "adjacent cur n"
    unfolding n_def by (rule offsets_adjacent [OF d])
  show ?thesis
  proof (cases "is_valid_and_clear g n \<and> g_score s cur + 1 < g_score s n")
    case False
    then have "explore_neighbor g goal cur s d = s"
      by (auto simp: explore_neighbor_cases n_def)
    then show ?thesis using inv cur by simp
  next
    case True
    then have clear: "is_valid_and_clear g n" and less: "g_score s cur + 1 < g_score s n"
      by simp_all
    have fin: "g_score s cur < g_score s cur + 1"
      by (rule enat_succ_less [OF less])
    have n_start: "n \<noteq> start"
      using less planner_invD(8) [OF inv] by auto
    define cf' where "cf' = (came_from s)(n \<mapsto> cur)"
    define g' where "g' = (g_score s)(n := g_score s cur + 1)"
    have g'_le: "g' c \<le> g_score s c" for c
      using less by (auto simp: g'_def intro: less_imp_le)
    have parents: "is_valid_and_clear g c \<and> adjacent p c
           \<and> (p = start \<or> cf' p \<noteq> None) \<and> g' p < g' c"
      if "cf' c = Some p" for c p
    proof (cases "c = n")
      case True
      then have "p = cur" using that by (simp add: cf'_def)
      moreover have "cur \<noteq> n" using adj by (auto simp: adjacent_def)
      ultimately show ?thesis
        using True clear adj cur fin by (auto simp: cf'_def g'_def)
    next
      case False
      then have old: "came_from s c = Some p" using that by (simp add: cf'_def)
      then have o: "is_valid_and_clear g c" "adjacent p c" "p = start \<or> came_from s p \<noteq> None"
        "g_score s p < g_score s c"
        using planner_invD(4-7) [OF inv] by blast+
      have "g' p \<le> g_score s p" by (rule g'_le)
      then have "g' p < g' c" using o(4) False by (simp add: g'_def)
      then show ?thesis using o by (auto simp: cf'_def)
    qed
    have start0: "g' start = 0"
      using planner_invD(8) [OF inv] n_start by (simp add: g'_def)
    have cur': "cur = start \<or> cf' cur \<noteq> None"
      using cur by (auto simp: cf'_def)
    show ?thesis
    proof (cases "n \<in> open_set_hash s")
      case True
      then have eq: "explore_neighbor g goal cur s d =
          s\<lparr> came_from := cf', g_score := g',
             f_score := (f_score s)(n := g_score s cur + 1 + enat (heuristic n goal)) \<rparr>"
        using clear less by (simp add: explore_neighbor_cases n_def cf'_def g'_def)
      have "c = start \<or> cf' c \<noteq> None" if "c \<in> open_set_hash s" for c
        using planner_invD(3) [OF inv that] by (auto simp: cf'_def)
      then have "planner_inv g start (s\<lparr> came_from := cf', g_score := g',
             f_score := (f_score s)(n := g_score s cur + 1 + enat (heuristic n goal)) \<rparr>)"
        using planner_invD(1,2) [OF inv] parents start0
        by (intro planner_invI) simp_all
      then show ?thesis
        unfolding eq using cur' by simp
    next
      case False
      then have eq: "explore_neighbor g goal cur s d =
          s\<lparr> came_from := cf', g_score := g',
             f_score := (f_score s)(n := g_score s cur + 1 + enat (heuristic n goal)),
             count := count s + 1,
             open_set := open_set s @ [(g_score s cur + 1 + enat (heuristic n goal), count s + 1, n)],
             open_set_hash := insert n (open_set_hash s) \<rparr>"
        using clear less by (simp add: explore_neighbor_cases n_def cf'_def g'_def)
      have a: "c = start \<or> cf' c \<noteq> None" if "c \<in> insert n (open_set_hash s)" for c
        using that planner_invD(3) [of g start s c, OF inv] by (auto simp: cf'_def)
      have b: "insert n (open_set_hash s)
          = cell_of ` set (open_set s @ [(g_score s cur + 1 + enat (heuristic n goal), count s + 1, n)])"
        using planner_invD(1) [OF inv] by (simp add: cell_of_def)
      have c: "distinct (map cell_of
          (open_set s @ [(g_score s cur + 1 + enat (heuristic n goal), count s + 1, n)]))"
        using planner_invD(1,2) [OF inv] False by (simp add: cell_of_def)
      have "planner_inv g start (s\<lparr> came_from := cf', g_score := g',
             f_score := (f_score s)(n := g_score s cur + 1 + enat (heuristic n goal)),
             count := count s + 1,
             open_set := open_set s @ [(g_score s cur + 1 + enat (heuristic n goal), count s + 1, n)],
             open_set_hash := insert n (open_set_hash s) \<rparr>)"
        using a b c parents start0
        by (intro planner_invI) simp_all
      then show ?thesis
        unfolding eq using cur' by simp
    qed
  qed
qed

lemma astar_loop_stop:
  "\<not> (open_set s \<noteq> [] \<and> real iterations < max_iterations) \<Longrightarrow>
     astar_loop g goal iterations s = Inr s"
  by (subst astar_loop.simps) auto

lemma astar_loop_goal:
  "open_set s \<noteq> [] \<and> real iterations < max_iterations \<Longrightarrow>
   heappop (open_set s) = Some ((f, k, cur), rest) \<Longrightarrow> cur \<in> open_set_hash s \<Longrightarrow>
   cur = goal \<Longrightarrow>
     astar_loop g goal iterations s =
       Inr (s\<lparr> open_set := rest, open_set_hash := open_set_hash s - {cur},
               path_found := True \<rparr>)"
  by (subst astar_loop.simps) simp

lemma astar_loop_expand:
  "open_set s \<noteq> [] \<and> real iterations < max_iterations \<Longrightarrow>
   heappop (open_set s) = Some ((f, k, cur), rest) \<Longrightarrow> cur \<in> open_set_hash s \<Longrightarrow>
   cur \<noteq> goal \<Longrightarrow>
     astar_loop g goal iterations s =
       astar_loop g goal (iterations + 1)
         (foldl (explore_neighbor g goal cur)
            (s\<lparr> open_set := rest, open_set_hash := open_set_hash s - {cur} \<rparr>) neighbor_offsets)"
  by (subst astar_loop.simps) simp

lemma foldl_explore_inv:
  assumes "planner_inv g start s" "cur = start \<or> came_from s cur \<noteq> None"
    and "set ds \<subseteq> set neighbor_offsets"
  shows "planner_inv g start (foldl (explore_neighbor g goal cur) s ds)
     \<and> (cur = start \<or> came_from (foldl (explore_neighbor g goal cur) s ds) cur \<noteq> None)"
  using assms
proof (induction ds arbitrary: s)
  case Nil
  then show ?case by simp
next
  case (Cons d ds)
  have d: "d \<in> set neighbor_offsets" and ds: "set ds \<subseteq> set neighbor_offsets"
    using Cons.prems(3) by simp_all
  note step = explore_neighbor_inv [OF Cons.prems(1,2) d, of goal]
  show ?case
    using Cons.IH [OF conjunct1 [OF step] conjunct2 [OF step] ds] by simp
qed

lemma explore_neighbor_path_found [simp]:
  "path_found (explore_neighbor g goal cur s d) = path_found s"
  by (simp add: explore_neighbor_cases)

lemma foldl_explore_path_found [simp]:
  "path_found (foldl (explore_neighbor g goal cur) s ds) = path_found s"
  by (induction ds arbitrary: s) simp_all

lemma distinct_map_remove1:
  "distinct (map f xs) \<Longrightarrow> x \<in> set xs \<Longrightarrow>
     distinct (map f (remove1 x xs)) \<and> f ` set (remove1 x xs) = f ` set xs - {f x}"
proof (induction xs)
  case Nil
  then show ?case by simp
next
  case (Cons y ys)
  show ?case
  proof (cases "x = y")
    case True
    then show ?thesis using Cons.prems by auto
  next
    case False
    then have "x \<in> set ys" using Cons.prems by simp
    moreover have "distinct (map f ys)" using Cons.prems by simp
    ultimately have ih: "distinct (map f (remove1 x ys))"
      "f ` set (remove1 x ys) = f ` set ys - {f x}"
      using Cons.IH by simp_all
    have "f y \<noteq> f x"
      using Cons.prems \<open>x \<in> set ys\<close> by auto
    then show ?thesis
      using False ih Cons.prems by auto
  qed
qed

lemma pop_inv:
  assumes inv: "planner_inv g start s"
    and pop: "heappop (open_set s) = Some ((f, k, cur), rest)"
  shows "cur \<in> open_set_hash s"
    and "planner_inv g start (s\<lparr> open_set := rest, open_set_hash := open_set_hash s - {cur} \<rparr>)"
    and "cur = start \<or> came_from s cur \<noteq> None"
proof -
  have m: "(f, k, cur) \<in> set (open_set s)" and rest: "rest = remove1 (f, k, cur) (open_set s)"
    using heappop_Some [OF pop] by simp_all
  show in_hash: "cur \<in> open_set_hash s"
    using m planner_invD(1) [OF inv] by (force simp: cell_of_def)
  show "cur = start \<or> came_from s cur \<noteq> None"
    by (rule planner_invD(3) [OF inv in_hash])
  have r: "distinct (map cell_of rest)" "cell_of ` set rest = cell_of ` set (open_set s) - {cur}"
    using distinct_map_remove1 [OF planner_invD(2) [OF inv] m] by (simp_all add: rest cell_of_def)
  show "planner_inv g start (s\<lparr> open_set := rest, open_set_hash := open_set_hash s - {cur} \<rparr>)"
  proof (intro planner_invI)
    show "open_set_hash (s\<lparr> open_set := rest, open_set_hash := open_set_hash s - {cur} \<rparr>)
        = cell_of ` set (open_set (s\<lparr> open_set := rest, open_set_hash := open_set_hash s - {cur} \<rparr>))"
      using r(2) planner_invD(1) [OF inv] by simp
    show "distinct (map cell_of (open_set (s\<lparr> open_set := rest, open_set_hash := open_set_hash s - {cur} \<rparr>)))"
      using r(1) by simp
  qed (use planner_invD(3-8) [OF inv] in auto)
qed

lemma astar_loop_inv:
  assumes "planner_inv g start s" "\<not> path_found s"
  shows "\<exists>s'. astar_loop g goal iterations s = Inr s' \<and> planner_inv g start s'
     \<and> (path_found s' \<longrightarrow> goal = start \<or> came_from s' goal \<noteq> None)"
  using assms
proof (induction g goal iterations s rule: astar_loop.induct)
  case (1 g goal iterations s)
  show ?case
  proof (cases "open_set s \<noteq> [] \<and> real iterations < max_iterations")
    case False
    then have "astar_loop g goal iterations s = Inr s"
      by (rule astar_loop_stop)
    then show ?thesis using "1.prems" by simp
  next
    case True
    then obtain m where "heappop (open_set s) = Some (m, remove1 m (open_set s))"
      using heappop_nonempty by blast
    then obtain f k cur rest where pop: "heappop (open_set s) = Some ((f, k, cur), rest)"
      by (cases m) auto
    note p = pop_inv [OF "1.prems"(1) pop]
    define s1 where "s1 = s\<lparr> open_set := rest, open_set_hash := open_set_hash s - {cur} \<rparr>"
    have cf1: "came_from s1 = came_from s" by (simp add: s1_def)
    show ?thesis
    proof (cases "cur = goal")
      case True
      have "astar_loop g goal iterations s = Inr (s1\<lparr> path_found := True \<rparr>)"
        using astar_loop_goal [OF \<open>open_set s \<noteq> [] \<and> real iterations < max_iterations\<close> pop p(1) True]
        by (simp add: s1_def)
      moreover have "planner_inv g start (s1\<lparr> path_found := True \<rparr>)"
        using p(2) by (simp add: planner_inv_def s1_def)
      ultimately show ?thesis
        using p(3) True by (simp add: s1_def)
    next
      case False
      define s2 where "s2 = foldl (explore_neighbor g goal cur) s1 neighbor_offsets"
      have eq: "astar_loop g goal iterations s = astar_loop g goal (iterations + 1) s2"
        using astar_loop_expand [OF True pop p(1) False]
        by (simp add: s1_def s2_def)
      have inv2: "planner_inv g start s2"
        unfolding s2_def using foldl_explore_inv [of g start s1 cur neighbor_offsets goal] p(2,3)
        by (simp add: s1_def)
      have pf2: "\<not> path_found s2"
        using "1.prems"(2) by (simp add: s2_def s1_def)
      show ?thesis
        unfolding eq s2_def s1_def
        by (rule "1.IH" [OF True pop refl refl refl _ refl False])
           (use p(1) inv2 pf2 in \<open>simp_all add: s1_def s2_def\<close>)
    qed
  qed
qed

lemma astar_init_inv: "planner_inv g start (astar_init start goal)"
  by (intro planner_invI) (simp_all add: astar_init_def heappush_def cell_of_def)

lemma start_has_no_parent:
  assumes "planner_inv g start s"
  shows "came_from s start = None"
proof (cases "came_from s start")
  case (Some p)
  then have "g_score s p < 0"
    using planner_invD(7) [OF assms Some] planner_invD(8) [OF assms] by simp
  then show ?thesis by simp
qed simp

lemma reconstruct_route:
  assumes inv: "planner_inv g start s"
    and reach: "c = start \<or> came_from s c \<noteq> None"
  shows "\<exists>ks. reconstruct (came_from s) c acc = Some (acc @ ks)
     \<and> walk start (rev ks)
     \<and> (\<forall>x \<in> set ks. is_valid_and_clear g x \<and> x \<noteq> start)
     \<and> last (start # rev ks) = c"
  using reach
proof (induction c arbitrary: acc rule: measure_induct_rule [where f = "g_score s"])
  case (less c)
  show ?case
  proof (cases "came_from s c")
    case None
    then have "c = start" using less.prems by simp
    moreover have "reconstruct (came_from s) c acc = Some acc"
      using None by (subst reconstruct.simps) simp
    ultimately show ?thesis by simp
  next
    case (Some p)
    have step: "reconstruct (came_from s) c acc = reconstruct (came_from s) p (acc @ [c])"
      using Some by (subst reconstruct.simps) simp
    have "g_score s p < g_score s c" "p = start \<or> came_from s p \<noteq> None"
      using planner_invD(6,7) [OF inv Some] by simp_all
    from less.IH [OF this, of "acc @ [c]"]
    obtain ks where ks: "reconstruct (came_from s) p (acc @ [c]) = Some ((acc @ [c]) @ ks)"
      "walk start (rev ks)" "\<forall>x \<in> set ks. is_valid_and_clear g x \<and> x \<noteq> start"
      "last (start # rev ks) = p"
      by blast
    have c_ok: "is_valid_and_clear g c" "adjacent p c"
      using planner_invD(4,5) [OF inv Some] by simp_all
    have c_start: "c \<noteq> start"
      using start_has_no_parent [OF inv] Some by auto
    have "walk start (rev (c # ks))"
      using ks(2,4) c_ok(2) by (simp add: walk_append)
    moreover have "last (start # rev (c # ks)) = c" by simp
    ultimately show ?thesis
      using step ks(1,3) c_ok(1) c_start
      by (intro exI [of _ "c # ks"]) simp
  qed
qed

lemma plan_path_cases:
  fixes g goal
  defines "start \<equiv> current_logical_robot_cell_on_path"
  shows "plan_path g (Some goal) = Some (Planning_failed ''Goal blocked.'')
     \<or> plan_path g (Some goal) = Some (Planning_failed ''No path found by A*.'')
     \<or> (\<exists>path. plan_path g (Some goal) = Some (Planning_succeeded path)
          \<and> walk start path
          \<and> (\<forall>c \<in> set path. is_valid_and_clear g c)
          \<and> last (start # path) = goal)"
proof (cases "is_valid_and_clear g goal")
  case False
  then show ?thesis by (simp add: plan_path_def)
next
  case True
  have "\<not> path_found (astar_init start goal)" by (simp add: astar_init_def)
  from astar_loop_inv [OF astar_init_inv this, of g goal 0]
  obtain s' where s': "astar_loop g goal 0 (astar_init start goal) = Inr s'"
    "planner_inv g start s'" "path_found s' \<longrightarrow> goal = start \<or> came_from s' goal \<noteq> None"
    by blast
  show ?thesis
  proof (cases "path_found s'")
    case False
    then show ?thesis
      using True s'(1) by (simp add: plan_path_def start_def)
  next
    case found: True
    then have "goal = start \<or> came_from s' goal \<noteq> None" using s'(3) by simp
    from reconstruct_route [OF s'(2) this, of "[]"]
    obtain ks where ks: "reconstruct (came_from s') goal [] = Some ks"
      "walk start (rev ks)" "\<forall>x \<in> set ks. is_valid_and_clear g x \<and> x \<noteq> start"
      "last (start # rev ks) = goal"
      by auto
    have "\<not> (rev ks \<noteq> [] \<and> hd (rev ks) = start)"
      using ks(3) hd_in_set [of "rev ks"] by auto
    then have "plan_path g (Some goal) = Some (Planning_succeeded (rev ks))"
      using True s'(1) found ks(1) by (auto simp: plan_path_def start_def Let_def)
    then show ?thesis
      using ks(2,3,4) by auto
  qed
qed

lemma adjacent_center:
  "adjacent (40, 40) c \<Longrightarrow> c \<in> {(39, 40), (41, 40), (40, 39), (40, 41)}"
  by (cases c) (auto simp: adjacent_def)

text \<open>
  C1. A path the planner returns consists of valid and clear cells only (inside the grid,
  below the obstacle threshold); it is a walk from the grid centre, and it ends at the
  goal. If every walk from the grid centre to the goal passes through a cell that is
  occupied or outside the grid, the planner reports a failure ("Goal blocked." or "No
  path found by A*.") and returns no path. The grid is the same throughout one planning
  run.
\<close>

theorem planner_sound:
  "(plan_path g goal_cell = Some (Planning_succeeded path) \<longrightarrow>
      (\<forall>c \<in> set path. is_valid_and_clear g c)
      \<and> walk current_logical_robot_cell_on_path path
      \<and> goal_cell = Some (last (current_logical_robot_cell_on_path # path)))
   \<and> ((\<forall>cs. walk current_logical_robot_cell_on_path cs
             \<and> last (current_logical_robot_cell_on_path # cs) = goal \<longrightarrow>
             (\<exists>c \<in> set cs. \<not> is_valid_and_clear g c)) \<longrightarrow>
        plan_path g (Some goal) = Some (Planning_failed ''Goal blocked.'')
        \<or> plan_path g (Some goal) = Some (Planning_failed ''No path found by A*.''))"
proof (intro conjI impI)
  assume ok: "plan_path g goal_cell = Some (Planning_succeeded path)"
  then obtain gl where gl: "goal_cell = Some gl"
    by (cases goal_cell) (simp_all add: plan_path_def)
  from plan_path_cases [of g gl] ok
  show "\<forall>c \<in> set path. is_valid_and_clear g c"
    and "walk current_logical_robot_cell_on_path path"
    and "goal_cell = Some (last (current_logical_robot_cell_on_path # path))"
    unfolding gl by auto
next
  assume blocked: "\<forall>cs. walk current_logical_robot_cell_on_path cs
             \<and> last (current_logical_robot_cell_on_path # cs) = goal \<longrightarrow>
             (\<exists>c \<in> set cs. \<not> is_valid_and_clear g c)"
  from plan_path_cases [of g goal] blocked
  show "plan_path g (Some goal) = Some (Planning_failed ''Goal blocked.'')
        \<or> plan_path g (Some goal) = Some (Planning_failed ''No path found by A*.'')"
    by blast
qed

theorem planner_sound_witness:
  "is_valid_and_clear zero_grid (40, 41)
   \<and> walk current_logical_robot_cell_on_path [(40, 41)]
   \<and> (plan_path (\<lambda>rc. if rc \<in> {(39, 40), (41, 40), (40, 39), (40, 41)} then 100 else 0) (Some (37, 40))
         = Some (Planning_failed ''Goal blocked.'')
       \<or> plan_path (\<lambda>rc. if rc \<in> {(39, 40), (41, 40), (40, 39), (40, 41)} then 100 else 0) (Some (37, 40))
         = Some (Planning_failed ''No path found by A*.''))"
proof -
  define wall :: grid where
    "wall = (\<lambda>rc. if rc \<in> {(39, 40), (41, 40), (40, 39), (40, 41)} then 100 else 0)"
  have blocked: "\<exists>c \<in> set cs. \<not> is_valid_and_clear wall c"
    if "walk current_logical_robot_cell_on_path cs
        \<and> last (current_logical_robot_cell_on_path # cs) = (37, 40)" for cs
  proof (cases cs)
    case Nil
    then show ?thesis using that by (simp add: center_cell)
  next
    case (Cons c rest)
    then have "adjacent (40, 40) c" using that by (simp add: center_cell)
    then have "c \<in> {(39, 40), (41, 40), (40, 39), (40, 41)}" by (rule adjacent_center)
    then have "\<not> is_valid_and_clear wall c"
      by (auto simp: is_valid_and_clear_def wall_def RENDER_THRESHOLD_def)
    then show ?thesis using Cons by auto
  qed
  note inst1 = planner_sound [where g = zero_grid and goal_cell = "Some (40, 41)"
      and path = "[(40, 41)]", THEN conjunct1, THEN mp, OF plan_right]
  note inst2 = planner_sound [where g = wall and goal = "(37, 40)", THEN conjunct2, THEN mp]
  have "plan_path wall (Some (37, 40)) = Some (Planning_failed ''Goal blocked.'')
       \<or> plan_path wall (Some (37, 40)) = Some (Planning_failed ''No path found by A*.'')"
    by (rule inst2) (use blocked in blast)
  then show ?thesis
    using inst1 unfolding wall_def by simp
qed

section \<open>The planner on a grid without obstacles\<close>

subsection \<open>Distance along one axis\<close>

lemma dist1_self [simp]: "dist1 a a = 0"
  by (simp add: dist1_def)

lemma dist1_zero: "dist1 a b = 0 \<Longrightarrow> a = b"
  by (simp add: dist1_def)

lemma dist1_sym: "dist1 a b = dist1 b a"
  by (simp add: dist1_def abs_minus_commute)

lemma dist1_triangle: "dist1 a b \<le> dist1 a c + dist1 c b"
  unfolding dist1_def by linarith

lemma dist1_up: "dist1 x (a + 1) = dist1 x a + 1 \<or> dist1 x a = dist1 x (a + 1) + 1"
  unfolding dist1_def by linarith

lemma dist1_down: "dist1 x (a - 1) = dist1 x a + 1 \<or> dist1 x a = dist1 x (a - 1) + 1"
  unfolding dist1_def by linarith

lemma dist1_between:
  "dist1 s r + dist1 r g = dist1 s g \<Longrightarrow> min s g \<le> r \<and> r \<le> max s g"
  unfolding dist1_def by linarith

lemma dist1_forward_up:
  "dist1 s r + dist1 r g = dist1 s g \<Longrightarrow> r < g \<Longrightarrow>
     dist1 s (r + 1) = dist1 s r + 1 \<and> dist1 (r + 1) g + 1 = dist1 r g"
  unfolding dist1_def by linarith

lemma dist1_forward_down:
  "dist1 s r + dist1 r g = dist1 s g \<Longrightarrow> g < r \<Longrightarrow>
     dist1 s (r - 1) = dist1 s r + 1 \<and> dist1 (r - 1) g + 1 = dist1 r g"
  unfolding dist1_def by linarith

lemma dist1_backward_up:
  "dist1 s r + dist1 r g = dist1 s g \<Longrightarrow> r < s \<Longrightarrow>
     dist1 s (r + 1) + 1 = dist1 s r \<and> dist1 (r + 1) g = dist1 r g + 1"
  unfolding dist1_def by linarith

lemma dist1_backward_down:
  "dist1 s r + dist1 r g = dist1 s g \<Longrightarrow> s < r \<Longrightarrow>
     dist1 s (r - 1) + 1 = dist1 s r \<and> dist1 (r - 1) g = dist1 r g + 1"
  unfolding dist1_def by linarith

lemma dist1_one: "dist1 a b = 1 \<Longrightarrow> b = a + 1 \<or> b = a - 1"
  unfolding dist1_def by linarith

subsection \<open>Manhattan distance\<close>

lemma heuristic_pair: "heuristic (r, q) (r', q') = dist1 r r' + dist1 q q'"
  by (simp add: heuristic_def dist1_def)

lemma adjacent_pair: "adjacent (r, q) (r', q') \<longleftrightarrow> dist1 r r' + dist1 q q' = 1"
  unfolding adjacent_def dist1_def by simp linarith

lemma adjacent_heuristic: "adjacent a b \<longleftrightarrow> heuristic a b = 1"
  by (cases a, cases b) (simp add: adjacent_pair heuristic_pair)

lemma heuristic_self [simp]: "heuristic c c = 0"
  by (simp add: heuristic_def)

lemma heuristic_zero: "heuristic a b = 0 \<Longrightarrow> a = b"
  by (cases a, cases b) (auto simp: heuristic_pair dest: dist1_zero)

lemma heuristic_sym: "heuristic a b = heuristic b a"
  by (cases a, cases b) (simp add: heuristic_pair dist1_sym)

lemma heuristic_triangle: "heuristic a b \<le> heuristic a c + heuristic c b"
proof -
  obtain r q r' q' r'' q'' where "a = (r, q)" "b = (r', q')" "c = (r'', q'')"
    by (cases a, cases b, cases c) auto
  then show ?thesis
    using dist1_triangle [of r r' r''] dist1_triangle [of q q' q'']
    by (simp add: heuristic_pair)
qed

lemma adjacent_cases:
  assumes "adjacent (r, q) (r', q')"
  shows "(r' = r \<and> q' = q + 1) \<or> (r' = r \<and> q' = q - 1)
      \<or> (r' = r + 1 \<and> q' = q) \<or> (r' = r - 1 \<and> q' = q)"
proof -
  from assms have "(dist1 r r' = 0 \<and> dist1 q q' = 1) \<or> (dist1 r r' = 1 \<and> dist1 q q' = 0)"
    unfolding adjacent_pair by linarith
  then show ?thesis
    using dist1_zero [of r r'] dist1_zero [of q q'] dist1_one [of r r'] dist1_one [of q q']
    by blast
qed

lemma heuristic_adjacent:
  assumes "adjacent a b"
  shows "heuristic x b = heuristic x a + 1 \<or> heuristic x a = heuristic x b + 1"
proof -
  obtain r q where a: "a = (r, q)" by (cases a)
  obtain r' q' where b: "b = (r', q')" by (cases b)
  obtain xr xq where x: "x = (xr, xq)" by (cases x)
  from adjacent_cases [OF assms [unfolded a b]] show ?thesis
    using dist1_up [of xr r] dist1_down [of xr r] dist1_up [of xq q] dist1_down [of xq q]
    unfolding a b x heuristic_pair by (elim disjE conjE) simp_all
qed

lemma heuristic_adjacent':
  "adjacent a b \<Longrightarrow> heuristic b x = heuristic a x + 1 \<or> heuristic a x = heuristic b x + 1"
  using heuristic_adjacent [of a b x] by (simp add: heuristic_sym)

lemma adjacent_sym: "adjacent a b \<Longrightarrow> adjacent b a"
  by (simp add: adjacent_heuristic heuristic_sym)

lemma adjacent_offset:
  "adjacent c n \<Longrightarrow> \<exists>d \<in> set neighbor_offsets. n = (fst c + fst d, snd c + snd d)"
proof -
  assume a: "adjacent c n"
  obtain r q where c: "c = (r, q)" by (cases c)
  obtain r' q' where n: "n = (r', q')" by (cases n)
  from a have "(r' = r \<and> q' = q + 1) \<or> (r' = r \<and> q' = q - 1)
      \<or> (r' = r + 1 \<and> q' = q) \<or> (r' = r - 1 \<and> q' = q)"
    unfolding c n by (rule adjacent_cases)
  then show ?thesis
    unfolding c n neighbor_offsets_def by auto
qed

subsection \<open>Cells between start and goal\<close>

lemma in_rect_axes:
  assumes "in_rect (sr, sq) (gr, gq) (r, q)"
  shows "dist1 sr r + dist1 r gr = dist1 sr gr" and "dist1 sq q + dist1 q gq = dist1 sq gq"
proof -
  have "dist1 sr gr \<le> dist1 sr r + dist1 r gr" "dist1 sq gq \<le> dist1 sq q + dist1 q gq"
    by (rule dist1_triangle)+
  moreover have "dist1 sr r + dist1 q sq + (dist1 r gr + dist1 q gq) = dist1 sr gr + dist1 sq gq"
    using assms unfolding in_rect_def heuristic_pair by (simp add: dist1_sym)
  ultimately show "dist1 sr r + dist1 r gr = dist1 sr gr" "dist1 sq q + dist1 q gq = dist1 sq gq"
    by (simp_all add: dist1_sym)
qed

lemma in_rect_in_grid:
  assumes "in_grid start" "in_grid goal" "in_rect start goal c"
  shows "in_grid c"
proof -
  obtain r q where c: "c = (r, q)" by (cases c)
  obtain sr sq where s: "start = (sr, sq)" by (cases start)
  obtain gr gq where g: "goal = (gr, gq)" by (cases goal)
  note ax = in_rect_axes [OF assms(3) [unfolded c s g]]
  have "min sr gr \<le> r \<and> r \<le> max sr gr" "min sq gq \<le> q \<and> q \<le> max sq gq"
    using dist1_between [OF ax(1)] dist1_between [OF ax(2)] by simp_all
  then show ?thesis
    using assms(1,2) unfolding in_grid_def c s g by auto
qed

lemma in_rect_start: "in_rect start goal start"
  by (simp add: in_rect_def)

lemma in_rect_goal: "in_rect start goal goal"
  by (simp add: in_rect_def)

lemma forward_neighbor:
  assumes "in_rect start goal c" "c \<noteq> goal"
  shows "\<exists>n. adjacent c n \<and> in_rect start goal n \<and> heuristic start n = heuristic start c + 1"
proof -
  obtain r q where c: "c = (r, q)" by (cases c)
  obtain sr sq where s: "start = (sr, sq)" by (cases start)
  obtain gr gq where g: "goal = (gr, gq)" by (cases goal)
  note ax = in_rect_axes [OF assms(1) [unfolded c s g]]
  from assms(2) consider "r < gr" | "gr < r" | "q < gq" | "gq < q"
    unfolding c g by fastforce
  then show ?thesis
  proof cases
    case 1
    have "adjacent c (r + 1, q) \<and> in_rect start goal (r + 1, q)
        \<and> heuristic start (r + 1, q) = heuristic start c + 1"
      using dist1_forward_up [OF ax(1) 1] ax dist1_up [of r r]
      unfolding adjacent_pair in_rect_def heuristic_pair c s g by simp
    then show ?thesis by blast
  next
    case 2
    have "adjacent c (r - 1, q) \<and> in_rect start goal (r - 1, q)
        \<and> heuristic start (r - 1, q) = heuristic start c + 1"
      using dist1_forward_down [OF ax(1) 2] ax dist1_down [of r r]
      unfolding adjacent_pair in_rect_def heuristic_pair c s g by simp
    then show ?thesis by blast
  next
    case 3
    have "adjacent c (r, q + 1) \<and> in_rect start goal (r, q + 1)
        \<and> heuristic start (r, q + 1) = heuristic start c + 1"
      using dist1_forward_up [OF ax(2) 3] ax dist1_up [of q q]
      unfolding adjacent_pair in_rect_def heuristic_pair c s g by simp
    then show ?thesis by blast
  next
    case 4
    have "adjacent c (r, q - 1) \<and> in_rect start goal (r, q - 1)
        \<and> heuristic start (r, q - 1) = heuristic start c + 1"
      using dist1_forward_down [OF ax(2) 4] ax dist1_down [of q q]
      unfolding adjacent_pair in_rect_def heuristic_pair c s g by simp
    then show ?thesis by blast
  qed
qed

lemma backward_neighbor:
  assumes "in_rect start goal c" "c \<noteq> start"
  shows "\<exists>y. adjacent y c \<and> in_rect start goal y \<and> heuristic start y + 1 = heuristic start c"
proof -
  obtain r q where c: "c = (r, q)" by (cases c)
  obtain sr sq where s: "start = (sr, sq)" by (cases start)
  obtain gr gq where g: "goal = (gr, gq)" by (cases goal)
  note ax = in_rect_axes [OF assms(1) [unfolded c s g]]
  from assms(2) consider "r < sr" | "sr < r" | "q < sq" | "sq < q"
    unfolding c s by fastforce
  then show ?thesis
  proof cases
    case 1
    have "adjacent (r + 1, q) c \<and> in_rect start goal (r + 1, q)
        \<and> heuristic start (r + 1, q) + 1 = heuristic start c"
      using dist1_backward_up [OF ax(1) 1] ax dist1_up [of r r]
      unfolding adjacent_pair in_rect_def heuristic_pair c s g by (simp add: dist1_sym)
    then show ?thesis by blast
  next
    case 2
    have "adjacent (r - 1, q) c \<and> in_rect start goal (r - 1, q)
        \<and> heuristic start (r - 1, q) + 1 = heuristic start c"
      using dist1_backward_down [OF ax(1) 2] ax dist1_down [of r r]
      unfolding adjacent_pair in_rect_def heuristic_pair c s g by (simp add: dist1_sym)
    then show ?thesis by blast
  next
    case 3
    have "adjacent (r, q + 1) c \<and> in_rect start goal (r, q + 1)
        \<and> heuristic start (r, q + 1) + 1 = heuristic start c"
      using dist1_backward_up [OF ax(2) 3] ax dist1_up [of q q]
      unfolding adjacent_pair in_rect_def heuristic_pair c s g by (simp add: dist1_sym)
    then show ?thesis by blast
  next
    case 4
    have "adjacent (r, q - 1) c \<and> in_rect start goal (r, q - 1)
        \<and> heuristic start (r, q - 1) + 1 = heuristic start c"
      using dist1_backward_down [OF ax(2) 4] ax dist1_down [of q q]
      unfolding adjacent_pair in_rect_def heuristic_pair c s g by (simp add: dist1_sym)
    then show ?thesis by blast
  qed
qed

lemma step_back_in_rect:
  assumes "in_rect start goal c" "adjacent c n" "heuristic start n + 1 = heuristic start c"
  shows "in_rect start goal n"
proof -
  have "heuristic n goal \<le> heuristic c goal + 1"
    using heuristic_adjacent' [OF assms(2), of goal] by auto
  moreover have "heuristic start goal \<le> heuristic start n + heuristic n goal"
    by (rule heuristic_triangle)
  ultimately show ?thesis
    using assms(1,3) unfolding in_rect_def by linarith
qed

lemma walk_length: "walk a cs \<Longrightarrow> heuristic a (last (a # cs)) \<le> length cs"
proof (induction cs arbitrary: a)
  case Nil
  then show ?case by simp
next
  case (Cons c cs)
  then have "adjacent a c" "heuristic c (last (c # cs)) \<le> length cs"
    by simp_all
  moreover have "heuristic a (last (c # cs)) \<le> heuristic a c + heuristic c (last (c # cs))"
    by (rule heuristic_triangle)
  moreover have "heuristic a c = 1"
    using \<open>adjacent a c\<close> by (simp add: adjacent_heuristic)
  ultimately show ?case by simp
qed

lemma in_grid_cells: "{c. in_grid c} = {0..<GRID_DIMENSION} \<times> {0..<GRID_DIMENSION}"
  by (auto simp: in_grid_def)

lemma finite_in_grid: "finite {c. in_grid c}"
  by (simp add: in_grid_cells)

lemma card_in_grid: "card {c. in_grid c} = 6400"
  by (simp add: in_grid_cells GRID_DIMENSION_def)

subsection \<open>The least entry of the heap\<close>

lemma entry_less_irrefl: "\<not> entry_less a a"
  by (cases a) (auto simp: entry_less_def)

lemma entry_less_trans: "entry_less a b \<Longrightarrow> entry_less b c \<Longrightarrow> entry_less a c"
proof -
  obtain fa ka ra qa where a: "a = (fa, ka, ra, qa)" by (cases a) auto
  obtain fb kb rb qb where b: "b = (fb, kb, rb, qb)" by (cases b) auto
  obtain fc kc rc qc where c: "c = (fc, kc, rc, qc)" by (cases c) auto
  show "entry_less a b \<Longrightarrow> entry_less b c \<Longrightarrow> entry_less a c"
    unfolding a b c entry_less_def by (simp, elim disjE conjE) auto
qed

lemma entry_less_total: "\<not> entry_less a b \<Longrightarrow> a = b \<or> entry_less b a"
proof -
  obtain fa ka ra qa where a: "a = (fa, ka, ra, qa)" by (cases a) auto
  obtain fb kb rb qb where b: "b = (fb, kb, rb, qb)" by (cases b) auto
  show "\<not> entry_less a b \<Longrightarrow> a = b \<or> entry_less b a"
    unfolding a b entry_less_def by simp (metis not_less_iff_gr_or_eq)
qed

lemma heap_min_least: "e \<in> set (m # xs) \<Longrightarrow> \<not> entry_less e (heap_min m xs)"
proof (induction xs arbitrary: m e)
  case Nil
  then show ?case by (simp add: entry_less_irrefl)
next
  case (Cons x xs)
  define m' where "m' = (if entry_less x m then x else m)"
  define r where "r = heap_min m' xs"
  have hm: "heap_min m (x # xs) = r" by (simp add: m'_def r_def)
  have ih: "\<not> entry_less e' r" if "e' \<in> set (m' # xs)" for e'
    unfolding r_def using Cons.IH [OF that] .
  have own: "\<not> entry_less m' r" using ih [of m'] by simp
  have other: "\<not> entry_less m r \<and> \<not> entry_less x r"
  proof (cases "entry_less x m")
    case True
    then have "m' = x" by (simp add: m'_def)
    then show ?thesis using own True entry_less_trans by blast
  next
    case False
    then have "m' = m" by (simp add: m'_def)
    then show ?thesis
      using own False entry_less_trans entry_less_total [of m r] by blast
  qed
  from Cons.prems consider "e = m" | "e = x" | "e \<in> set xs" by auto
  then show ?case
  proof cases
    case 1
    then show ?thesis unfolding hm using other by blast
  next
    case 2
    then show ?thesis unfolding hm using other by blast
  next
    case 3
    then show ?thesis unfolding hm using ih [of e] by simp
  qed
qed

lemma heappop_least:
  assumes "heappop h = Some (m, rest)" "e \<in> set h"
  shows "\<not> entry_less e m"
proof (cases h)
  case Nil
  then show ?thesis using assms by simp
next
  case (Cons x xs)
  then have "m = heap_min x xs" using assms(1) by (auto simp: heappop_def Let_def)
  then show ?thesis using heap_min_least [of e x xs] assms(2) Cons by simp
qed

subsection \<open>The level invariant\<close>

lemma empty_clear: "empty_setup g start goal \<Longrightarrow> is_valid_and_clear g c = in_grid c"
  by (cases c) (auto simp: empty_setup_def is_valid_and_clear_def in_grid_def)

lemma bfs_invD:
  assumes "bfs_inv start goal iterations s"
  shows "exact_scores start s" and "entries_ok start goal s"
    and "\<And>e1 e2. e1 \<in> set (open_set s) \<Longrightarrow> e2 \<in> set (open_set s) \<Longrightarrow>
          in_rect start goal (cell_of e1) \<Longrightarrow> in_rect start goal (cell_of e2) \<Longrightarrow>
          count_of e1 < count_of e2 \<Longrightarrow>
          heuristic start (cell_of e1) \<le> heuristic start (cell_of e2)"
    and "\<And>e1 e2. e1 \<in> set (open_set s) \<Longrightarrow> e2 \<in> set (open_set s) \<Longrightarrow>
          in_rect start goal (cell_of e1) \<Longrightarrow> in_rect start goal (cell_of e2) \<Longrightarrow>
          heuristic start (cell_of e2) \<le> heuristic start (cell_of e1) + 1"
    and "\<And>x e. e \<in> set (open_set s) \<Longrightarrow> in_rect start goal x \<Longrightarrow> closed_cell s x \<Longrightarrow>
          in_rect start goal (cell_of e) \<Longrightarrow>
          heuristic start x \<le> heuristic start (cell_of e)"
    and "\<And>x. in_rect start goal x \<Longrightarrow>
          (\<And>e. e \<in> set (open_set s) \<Longrightarrow> in_rect start goal (cell_of e) \<Longrightarrow>
                heuristic start x < heuristic start (cell_of e)) \<Longrightarrow> closed_cell s x"
    and "\<And>c n. closed_cell s c \<Longrightarrow> adjacent c n \<Longrightarrow> in_grid n \<Longrightarrow> discovered s n"
    and "\<exists>e \<in> set (open_set s). in_rect start goal (cell_of e)"
    and "counted iterations s"
  using assms unfolding bfs_inv_def by blast+

lemma mid_invD:
  assumes "mid_inv start goal iterations cur P s"
  shows "in_rect start goal cur" and "discovered s cur" and "cur \<notin> open_set_hash s"
    and "exact_scores start s" and "entries_ok start goal s"
    and "\<And>e. e \<in> set (open_set s) \<Longrightarrow> in_rect start goal (cell_of e) \<Longrightarrow>
          heuristic start cur \<le> heuristic start (cell_of e)
          \<and> heuristic start (cell_of e) \<le> heuristic start cur + 1"
    and "\<And>e1 e2. e1 \<in> set (open_set s) \<Longrightarrow> e2 \<in> set (open_set s) \<Longrightarrow>
          in_rect start goal (cell_of e1) \<Longrightarrow> in_rect start goal (cell_of e2) \<Longrightarrow>
          count_of e1 < count_of e2 \<Longrightarrow>
          heuristic start (cell_of e1) \<le> heuristic start (cell_of e2)"
    and "\<And>x. in_rect start goal x \<Longrightarrow> closed_cell s x \<Longrightarrow> heuristic start x \<le> heuristic start cur"
    and "\<And>x. in_rect start goal x \<Longrightarrow> heuristic start x < heuristic start cur \<Longrightarrow> closed_cell s x"
    and "\<And>c n. closed_cell s c \<Longrightarrow> c \<noteq> cur \<Longrightarrow> adjacent c n \<Longrightarrow> in_grid n \<Longrightarrow> discovered s n"
    and "\<And>n. n \<in> P \<Longrightarrow> in_grid n \<Longrightarrow> discovered s n"
    and "counted (iterations + 1) s"
  using assms unfolding mid_inv_def by blast+

lemma exact_scoresD:
  "exact_scores start s \<Longrightarrow> discovered s c \<Longrightarrow> g_score s c = enat (heuristic start c)"
  "exact_scores start s \<Longrightarrow> discovered s c \<Longrightarrow> in_grid c"
  unfolding exact_scores_def by blast+

lemma entries_okD:
  assumes "entries_ok start goal s" "e \<in> set (open_set s)"
  shows "discovered s (cell_of e)"
    and "fst e = enat (heuristic start (cell_of e) + heuristic (cell_of e) goal)"
    and "count_of e \<le> count s"
  using assms unfolding entries_ok_def by blast+

lemma entries_ok_distinct: "entries_ok start goal s \<Longrightarrow> distinct (map count_of (open_set s))"
  unfolding entries_ok_def by blast

lemma hash_entry:
  assumes "planner_inv g start s" "c \<in> open_set_hash s"
  shows "\<exists>e \<in> set (open_set s). cell_of e = c"
  using assms planner_invD(1) [OF assms(1)] by auto

lemma entry_hash:
  assumes "planner_inv g start s" "e \<in> set (open_set s)"
  shows "cell_of e \<in> open_set_hash s"
  using assms planner_invD(1) [OF assms(1)] by auto

lemma finish_expansion:
  assumes emp: "empty_setup g start goal"
    and pinv: "planner_inv g start s"
    and mid: "mid_inv start goal iterations cur P s"
    and all: "\<And>n. adjacent cur n \<Longrightarrow> n \<in> P"
    and ng: "cur \<noteq> goal"
  shows "bfs_inv start goal (iterations + 1) s"
proof -
  note m = mid_invD [OF mid]
  have grid: "in_grid start" "in_grid goal"
    using emp by (simp_all add: empty_setup_def)
  obtain n where n: "adjacent cur n" "in_rect start goal n"
    "heuristic start n = heuristic start cur + 1"
    using forward_neighbor [OF m(1) ng] by blast
  have n_grid: "in_grid n" by (rule in_rect_in_grid [OF grid n(2)])
  have n_disc: "discovered s n" by (rule m(11) [OF all [OF n(1)] n_grid])
  have "\<not> closed_cell s n"
    using m(8) [OF n(2)] n(3) by auto
  then have "n \<in> open_set_hash s"
    using n_disc by (simp add: closed_cell_def)
  then obtain en where en: "en \<in> set (open_set s)" "cell_of en = n"
    using hash_entry [OF pinv] by blast
  have h6: "\<exists>e \<in> set (open_set s). in_rect start goal (cell_of e)"
    using en n(2) by auto
  have h3: "(count_of e1 < count_of e2 \<longrightarrow>
             heuristic start (cell_of e1) \<le> heuristic start (cell_of e2))
          \<and> heuristic start (cell_of e2) \<le> heuristic start (cell_of e1) + 1"
    if "e1 \<in> set (open_set s)" "e2 \<in> set (open_set s)"
      "in_rect start goal (cell_of e1) \<and> in_rect start goal (cell_of e2)" for e1 e2
    using m(6) [OF that(1)] m(6) [OF that(2)] m(7) [OF that(1,2)] that(3) by auto
  have h4: "heuristic start x \<le> heuristic start (cell_of e)"
    if "e \<in> set (open_set s)"
      "in_rect start goal x \<and> closed_cell s x \<and> in_rect start goal (cell_of e)" for x e
    using m(6) [OF that(1)] m(8) [of x] that(2) by auto
  have h4b: "closed_cell s x"
    if x: "in_rect start goal x"
      and below: "\<forall>e \<in> set (open_set s). in_rect start goal (cell_of e) \<longrightarrow>
                heuristic start x < heuristic start (cell_of e)" for x
  proof (cases "heuristic start x < heuristic start cur")
    case True
    then show ?thesis by (rule m(9) [OF x])
  next
    case False
    have "heuristic start x < heuristic start n"
      using below en n(2) by auto
    then have lvl: "heuristic start x = heuristic start cur"
      using False n(3) by simp
    have disc: "discovered s x"
    proof (cases "x = cur")
      case True
      then show ?thesis using m(2) by simp
    next
      case False
      have "x \<noteq> start"
      proof
        assume "x = start"
        then have "heuristic start cur = 0" using lvl by simp
        then have "cur = start" using heuristic_zero [of start cur] by simp
        then show False using \<open>x = start\<close> False by simp
      qed
      then obtain y where y: "adjacent y x" "in_rect start goal y"
        "heuristic start y + 1 = heuristic start x"
        using backward_neighbor [OF x] by blast
      have "closed_cell s y" using m(9) [OF y(2)] y(3) lvl by simp
      moreover have "y \<noteq> cur" using y(3) lvl by auto
      moreover have "in_grid x" by (rule in_rect_in_grid [OF grid x])
      ultimately show ?thesis using m(10) y(1) by blast
    qed
    have "x \<notin> open_set_hash s"
    proof
      assume "x \<in> open_set_hash s"
      then obtain e where "e \<in> set (open_set s)" "cell_of e = x"
        using hash_entry [OF pinv] by blast
      then show False using below x by auto
    qed
    then show ?thesis using disc by (simp add: closed_cell_def)
  qed
  have h5: "discovered s n'" if "closed_cell s c \<and> adjacent c n' \<and> in_grid n'" for c n'
  proof (cases "c = cur")
    case True
    then show ?thesis using that all m(11) by blast
  next
    case False
    then show ?thesis using that m(10) by blast
  qed
  show ?thesis
    unfolding bfs_inv_def
    using m(4,5,12) h3 h4 h4b h5 h6 by blast
qed

lemma entry_less_fst: "fst a < fst b \<Longrightarrow> entry_less a b"
  by (cases a, cases b) (auto simp: entry_less_def)

lemma entry_less_count: "fst a = fst b \<Longrightarrow> count_of a < count_of b \<Longrightarrow> entry_less a b"
  by (cases a, cases b) (auto simp: entry_less_def count_of_def)

lemma distinct_map_neq:
  "distinct (map f xs) \<Longrightarrow> a \<in> set xs \<Longrightarrow> b \<in> set xs \<Longrightarrow> a \<noteq> b \<Longrightarrow> f a \<noteq> f b"
  by (meson distinct_map inj_on_def)

lemma distinct_of_map: "distinct (map f xs) \<Longrightarrow> distinct xs"
  by (simp add: distinct_map)

lemma pop_bfs:
  assumes emp: "empty_setup g start goal"
    and pinv: "planner_inv g start s"
    and inv: "bfs_inv start goal iterations s"
    and pop: "heappop (open_set s) = Some ((f, k, cur), rest)"
  shows "in_rect start goal cur"
    and "g_score s cur = enat (heuristic start cur)"
    and "mid_inv start goal iterations cur {}
           (s\<lparr> open_set := rest, open_set_hash := open_set_hash s - {cur} \<rparr>)"
proof -
  define m :: entry where "m = (f, k, cur)"
  define s1 where "s1 = s\<lparr> open_set := rest, open_set_hash := open_set_hash s - {cur} \<rparr>"
  note b = bfs_invD [OF inv]
  have m_in: "m \<in> set (open_set s)" and rest: "rest = remove1 m (open_set s)"
    using heappop_Some [OF pop] by (simp_all add: m_def)
  have m_sel: "cell_of m = cur" "count_of m = k" "fst m = f"
    by (simp_all add: m_def cell_of_def count_of_def)
  have least: "\<not> entry_less e m" if "e \<in> set (open_set s)" for e
    using heappop_least [OF pop that] by (simp add: m_def)
  note m_ok = entries_okD [OF b(2) m_in, unfolded m_sel]
  show exact_cur: "g_score s cur = enat (heuristic start cur)"
    by (rule exact_scoresD(1) [OF b(1) m_ok(1)])
  obtain e0 where e0: "e0 \<in> set (open_set s)" "in_rect start goal (cell_of e0)"
    using b(8) by blast
  have f0: "fst e0 = enat (heuristic start goal)"
    using entries_okD(2) [OF b(2) e0(1)] e0(2) by (simp add: in_rect_def)
  have "\<not> fst e0 < fst m"
    using least [OF e0(1)] entry_less_fst by blast
  then have "heuristic start cur + heuristic cur goal \<le> heuristic start goal"
    using f0 m_ok(2) m_sel(3) by simp
  then show rect_cur: "in_rect start goal cur"
    using heuristic_triangle [of start goal cur] by (simp add: in_rect_def)
  have f_m: "fst m = enat (heuristic start goal)"
    using m_ok(2) m_sel(3) rect_cur by (simp add: in_rect_def)
  have dist_heap: "distinct (open_set s)"
    by (rule distinct_of_map [OF planner_invD(2) [OF pinv]])
  have set_rest: "set rest = set (open_set s) - {m}"
    unfolding rest using dist_heap by simp
  have after: "heuristic start cur \<le> heuristic start (cell_of e)
      \<and> heuristic start (cell_of e) \<le> heuristic start cur + 1"
    if e: "e \<in> set (open_set s)" and r: "in_rect start goal (cell_of e)" for e
  proof (cases "e = m")
    case True
    then show ?thesis by (simp add: m_sel)
  next
    case False
    have "fst e = fst m"
      using entries_okD(2) [OF b(2) e] r f_m by (simp add: in_rect_def)
    then have "\<not> count_of e < count_of m"
      using least [OF e] entry_less_count by blast
    moreover have "count_of e \<noteq> count_of m"
      using distinct_map_neq [of count_of "open_set s" e m] entries_ok_distinct [OF b(2)] e m_in False
      by simp
    ultimately have "count_of m < count_of e" by simp
    then show ?thesis
      using b(3) [OF m_in e _ r] b(4) [OF m_in e _ r] rect_cur by (simp add: m_sel)
  qed
  have disc1: "discovered s1 c = discovered s c" for c
    by (simp add: discovered_def s1_def)
  have closed1: "closed_cell s1 c \<longleftrightarrow> closed_cell s c \<or> (c = cur \<and> discovered s c)" for c
    by (auto simp: closed_cell_def discovered_def s1_def)
  have heap1: "open_set s1 = rest" "count s1 = count s"
    by (simp_all add: s1_def)
  have "entries_ok start goal s1"
    unfolding entries_ok_def heap1 disc1
    using b(2) distinct_map_remove1 [OF entries_ok_distinct [OF b(2)] m_in]
    by (auto simp: entries_ok_def set_rest rest)
  moreover have "exact_scores start s1"
    using b(1) by (simp add: exact_scores_def discovered_def s1_def)
  moreover have "heuristic start x \<le> heuristic start cur"
    if "in_rect start goal x \<and> closed_cell s1 x" for x
  proof (cases "x = cur")
    case False
    then have "closed_cell s x" using that closed1 by simp
    then show ?thesis using b(5) [OF m_in _ _] that rect_cur by (simp add: m_sel)
  qed simp
  moreover have "closed_cell s1 x"
    if "in_rect start goal x \<and> heuristic start x < heuristic start cur" for x
  proof -
    have "closed_cell s x"
    proof (rule b(6))
      show "in_rect start goal x" using that by simp
      fix e assume "e \<in> set (open_set s)" "in_rect start goal (cell_of e)"
      then show "heuristic start x < heuristic start (cell_of e)"
        using after that by fastforce
    qed
    then show ?thesis by (simp add: closed1)
  qed
  moreover have "discovered s1 n"
    if "closed_cell s1 c \<and> c \<noteq> cur \<and> adjacent c n \<and> in_grid n" for c n
    using that b(7) [of c n] by (auto simp: closed1 disc1)
  moreover have "counted (iterations + 1) s1"
  proof -
    have "length rest + 1 = length (open_set s)"
      unfolding rest using m_in by (simp add: length_remove1) (cases "open_set s", auto)
    then show ?thesis
      using b(9) by (simp add: counted_def disc1 heap1)
  qed
  moreover have "heuristic start (cell_of e1) \<le> heuristic start (cell_of e2)"
    if "e1 \<in> set rest" "e2 \<in> set rest"
      "in_rect start goal (cell_of e1) \<and> in_rect start goal (cell_of e2)
          \<and> count_of e1 < count_of e2" for e1 e2
    using b(3) [of e1 e2] that by (simp add: set_rest)
  moreover have "heuristic start cur \<le> heuristic start (cell_of e)
          \<and> heuristic start (cell_of e) \<le> heuristic start cur + 1"
    if "e \<in> set rest" "in_rect start goal (cell_of e)" for e
    using after [of e] that by (simp add: set_rest)
  moreover have "discovered s1 cur" "cur \<notin> open_set_hash s1"
    using m_ok(1) by (simp_all add: discovered_def s1_def)
  ultimately show "mid_inv start goal iterations cur {}
           (s\<lparr> open_set := rest, open_set_hash := open_set_hash s - {cur} \<rparr>)"
    unfolding s1_def [symmetric] mid_inv_def heap1 using rect_cur by blast
qed

lemma discovered_finite:
  assumes "exact_scores start s"
  shows "finite {c. discovered s c}"
proof (rule finite_subset [OF _ finite_in_grid])
  show "{c. discovered s c} \<subseteq> {c. in_grid c}"
    using exact_scoresD(2) [OF assms] by blast
qed

lemma explore_mid:
  fixes cur d
  defines "n \<equiv> (fst cur + fst d, snd cur + snd d)"
  assumes emp: "empty_setup g start goal"
    and pinv: "planner_inv g start s"
    and mid: "mid_inv start goal iterations cur P s"
    and d: "d \<in> set neighbor_offsets"
  shows "mid_inv start goal iterations cur (insert n P) (explore_neighbor g goal cur s d)"
proof -
  note m = mid_invD [OF mid]
  have adj: "adjacent cur n"
    using offsets_adjacent [OF d] by (simp add: n_def)
  have cur_score: "g_score s cur = enat (heuristic start cur)"
    by (rule exact_scoresD(1) [OF m(4) m(2)])
  have clear: "is_valid_and_clear g n = in_grid n"
    by (rule empty_clear [OF emp])
  have cases: "explore_neighbor g goal cur s d =
     (if in_grid n \<and> enat (heuristic start cur) + 1 < g_score s n
      then (if n \<notin> open_set_hash s
            then s\<lparr> came_from := (came_from s)(n \<mapsto> cur),
                    g_score := (g_score s)(n := enat (heuristic start cur) + 1),
                    f_score := (f_score s)(n := enat (heuristic start cur) + 1 + enat (heuristic n goal)),
                    count := count s + 1,
                    open_set := open_set s @ [(enat (heuristic start cur) + 1 + enat (heuristic n goal),
                                              count s + 1, n)],
                    open_set_hash := insert n (open_set_hash s) \<rparr>
            else s\<lparr> came_from := (came_from s)(n \<mapsto> cur),
                    g_score := (g_score s)(n := enat (heuristic start cur) + 1),
                    f_score := (f_score s)(n := enat (heuristic start cur) + 1 + enat (heuristic n goal)) \<rparr>)
      else s)"
    unfolding explore_neighbor_cases n_def [symmetric] clear cur_score ..
  have same: "mid_inv start goal iterations cur (insert n P) s"
    if "in_grid n \<Longrightarrow> discovered s n"
    unfolding mid_inv_def using m that by (intro conjI ballI allI impI) auto
  show ?thesis
  proof (cases "in_grid n")
    case False
    then show ?thesis using same by (simp add: cases)
  next
    case grid: True
    show ?thesis
    proof (cases "discovered s n")
      case True
      have "g_score s n = enat (heuristic start n)"
        by (rule exact_scoresD(1) [OF m(4) True])
      moreover have "heuristic start n \<le> heuristic start cur + 1"
        using heuristic_adjacent [OF adj, of start] by auto
      ultimately have "\<not> enat (heuristic start cur) + 1 < g_score s n"
        by (simp add: one_enat_def)
      then show ?thesis using same True by (simp add: cases)
    next
      case False
      then have inf: "g_score s n = \<infinity>" by (simp add: discovered_def)
      have not_hash: "n \<notin> open_set_hash s"
      proof
        assume "n \<in> open_set_hash s"
        then obtain e where "e \<in> set (open_set s)" "cell_of e = n"
          using hash_entry [OF pinv] by blast
        then show False using entries_okD(1) [OF m(5)] False by blast
      qed
      have lvl: "heuristic start n = heuristic start cur + 1"
      proof (rule ccontr)
        assume "heuristic start n \<noteq> heuristic start cur + 1"
        then have bk: "heuristic start n + 1 = heuristic start cur"
          using heuristic_adjacent [OF adj, of start] by auto
        have "in_rect start goal n"
          by (rule step_back_in_rect [OF m(1) adj bk])
        then have "closed_cell s n" using m(9) [of n] bk by simp
        then show False using False by (simp add: closed_cell_def)
      qed
      define fn where "fn = enat (heuristic start cur) + 1 + enat (heuristic n goal)"
      define s' where "s' = s\<lparr> came_from := (came_from s)(n \<mapsto> cur),
                    g_score := (g_score s)(n := enat (heuristic start cur) + 1),
                    f_score := (f_score s)(n := fn),
                    count := count s + 1,
                    open_set := open_set s @ [(fn, count s + 1, n)],
                    open_set_hash := insert n (open_set_hash s) \<rparr>"
      have eq: "explore_neighbor g goal cur s d = s'"
        using grid inf not_hash by (simp add: cases s'_def fn_def one_enat_def)
      have fn: "fn = enat (heuristic start n + heuristic n goal)"
        by (simp add: fn_def lvl one_enat_def)
      have sel: "open_set s' = open_set s @ [(fn, count s + 1, n)]" "count s' = count s + 1"
        "open_set_hash s' = insert n (open_set_hash s)"
        by (simp_all add: s'_def)
      have disc: "discovered s' c \<longleftrightarrow> discovered s c \<or> c = n" for c
        by (simp add: discovered_def s'_def one_enat_def)
      have closed': "closed_cell s' c \<longleftrightarrow> closed_cell s c" for c
        using False by (auto simp: closed_cell_def disc sel)
      have new_sel: "cell_of (fn, count s + 1, n) = n" "count_of (fn, count s + 1, n) = count s + 1"
        by (simp_all add: cell_of_def count_of_def)
      have ncur: "n \<noteq> cur" using False m(2) by auto
      have exact: "exact_scores start s'"
        unfolding exact_scores_def disc
        using exact_scoresD [OF m(4)] grid lvl
        by (auto simp: s'_def one_enat_def)
      have old_count: "count_of e \<le> count s" if "e \<in> set (open_set s)" for e
        by (rule entries_okD(3) [OF m(5) that])
      have entries: "entries_ok start goal s'"
        unfolding entries_ok_def sel
      proof (intro conjI ballI)
        fix e assume "e \<in> set (open_set s @ [(fn, count s + 1, n)])"
        then consider "e \<in> set (open_set s)" | "e = (fn, count s + 1, n)" by auto
        then have "discovered s' (cell_of e) \<and> count_of e \<le> count s + 1
          \<and> fst e = enat (heuristic start (cell_of e) + heuristic (cell_of e) goal)"
        proof cases
          case 1
          then show ?thesis using entries_okD [OF m(5) 1] by (simp add: disc)
        next
          case 2
          then show ?thesis by (simp add: cell_of_def count_of_def fn disc)
        qed
        then show "discovered s' (cell_of e)" "count_of e \<le> count s + 1"
          "fst e = enat (heuristic start (cell_of e) + heuristic (cell_of e) goal)"
          by simp_all
      next
        have "count s + 1 \<notin> count_of ` set (open_set s)"
          using old_count by fastforce
        then show "distinct (map count_of (open_set s @ [(fn, count s + 1, n)]))"
          using entries_ok_distinct [OF m(5)] by (simp add: count_of_def)
      qed
      have near: "heuristic start cur \<le> heuristic start (cell_of e)
          \<and> heuristic start (cell_of e) \<le> heuristic start cur + 1"
        if "e \<in> set (open_set s')" "in_rect start goal (cell_of e)" for e
      proof -
        from that(1) consider "e \<in> set (open_set s)" | "e = (fn, count s + 1, n)"
          by (auto simp: sel)
        then show ?thesis
        proof cases
          case 1
          then show ?thesis using m(6) that(2) by blast
        next
          case 2
          then show ?thesis by (simp add: cell_of_def lvl)
        qed
      qed
      have mono: "heuristic start (cell_of e1) \<le> heuristic start (cell_of e2)"
        if "e1 \<in> set (open_set s')" "e2 \<in> set (open_set s')"
          "in_rect start goal (cell_of e1)" "in_rect start goal (cell_of e2)"
          "count_of e1 < count_of e2" for e1 e2
      proof -
        from that(2) consider "e2 \<in> set (open_set s)" | "e2 = (fn, count s + 1, n)"
          by (auto simp: sel)
        then show ?thesis
        proof cases
          case 1
          have "e1 \<in> set (open_set s)"
          proof (rule ccontr)
            assume "e1 \<notin> set (open_set s)"
            then have "e1 = (fn, count s + 1, n)" using that(1) by (simp add: sel)
            then show False using old_count [OF 1] that(5) by (simp add: count_of_def)
          qed
          then show ?thesis using m(7) 1 that(3,4,5) by blast
        next
          case 2
          then show ?thesis using near [OF that(1,3)] by (simp add: cell_of_def lvl)
        qed
      qed
      have cnt: "counted (iterations + 1) s'"
      proof -
        have "{c. discovered s' c} = insert n {c. discovered s c}"
          by (auto simp: disc)
        then have "card {c. discovered s' c} = card {c. discovered s c} + 1"
          using discovered_finite [OF m(4)] False by simp
        then show ?thesis
          using m(12) by (simp add: counted_def sel)
      qed
      have "mid_inv start goal iterations cur (insert n P) s'"
        unfolding mid_inv_def
      proof (intro conjI)
        show "in_rect start goal cur" by (rule m(1))
        show "discovered s' cur" using m(2) by (simp add: disc)
        show "cur \<notin> open_set_hash s'" using m(3) ncur by (simp add: sel)
        show "exact_scores start s'" by (rule exact)
        show "entries_ok start goal s'" by (rule entries)
        show "counted (iterations + 1) s'" by (rule cnt)
        show "\<forall>e \<in> set (open_set s'). in_rect start goal (cell_of e) \<longrightarrow>
          heuristic start cur \<le> heuristic start (cell_of e)
          \<and> heuristic start (cell_of e) \<le> heuristic start cur + 1"
          using near by blast
        show "\<forall>e1 \<in> set (open_set s'). \<forall>e2 \<in> set (open_set s').
          in_rect start goal (cell_of e1) \<and> in_rect start goal (cell_of e2)
          \<and> count_of e1 < count_of e2 \<longrightarrow>
          heuristic start (cell_of e1) \<le> heuristic start (cell_of e2)"
          using mono by blast
        show "\<forall>x. in_rect start goal x \<and> closed_cell s' x \<longrightarrow> heuristic start x \<le> heuristic start cur"
          using m(8) by (simp add: closed')
        show "\<forall>x. in_rect start goal x \<and> heuristic start x < heuristic start cur \<longrightarrow> closed_cell s' x"
          using m(9) by (simp add: closed')
        show "\<forall>c n. closed_cell s' c \<and> c \<noteq> cur \<and> adjacent c n \<and> in_grid n \<longrightarrow> discovered s' n"
          using m(10) by (auto simp: closed' disc)
        show "\<forall>x \<in> insert n P. in_grid x \<longrightarrow> discovered s' x"
          using m(11) by (auto simp: disc)
      qed
      then show ?thesis by (simp add: eq)
    qed
  qed
qed

lemma foldl_explore_mid:
  assumes emp: "empty_setup g start goal"
    and pinv: "planner_inv g start s"
    and reach: "cur = start \<or> came_from s cur \<noteq> None"
    and mid: "mid_inv start goal iterations cur P s"
    and ds: "set ds \<subseteq> set neighbor_offsets"
  shows "mid_inv start goal iterations cur
           (P \<union> (\<lambda>d. (fst cur + fst d, snd cur + snd d)) ` set ds)
           (foldl (explore_neighbor g goal cur) s ds)"
  using pinv reach mid ds
proof (induction ds arbitrary: s P)
  case Nil
  then show ?case by simp
next
  case (Cons d ds)
  have d: "d \<in> set neighbor_offsets" and rest: "set ds \<subseteq> set neighbor_offsets"
    using Cons.prems(4) by simp_all
  note step = explore_neighbor_inv [OF Cons.prems(1,2) d, of goal]
  note mid' = explore_mid [OF emp Cons.prems(1,3) d]
  have "mid_inv start goal iterations cur
        (insert (fst cur + fst d, snd cur + snd d) P
           \<union> (\<lambda>d. (fst cur + fst d, snd cur + snd d)) ` set ds)
        (foldl (explore_neighbor g goal cur) (explore_neighbor g goal cur s d) ds)"
    by (rule Cons.IH [OF conjunct1 [OF step] conjunct2 [OF step] mid' rest])
  then show ?case by simp
qed

lemma astar_init_bfs:
  assumes emp: "empty_setup g start goal"
  shows "bfs_inv start goal 0 (astar_init start goal)"
proof -
  define s where "s = astar_init start goal"
  have heap: "open_set s = [(enat (heuristic start goal), 0, start)]" "count s = 0"
    "open_set_hash s = {start}"
    by (simp_all add: s_def astar_init_def heappush_def)
  have disc: "discovered s c \<longleftrightarrow> c = start" for c
    by (simp add: s_def astar_init_def discovered_def zero_enat_def)
  have not_closed: "\<not> closed_cell s c" for c
    by (simp add: closed_cell_def disc heap)
  have sel: "cell_of (enat (heuristic start goal), 0, start) = start"
    "count_of (enat (heuristic start goal), 0, start) = 0"
    by (simp_all add: cell_of_def count_of_def)
  have "g_score s start = enat (heuristic start start)"
    by (simp add: s_def astar_init_def zero_enat_def)
  moreover have "in_grid start"
    using emp by (simp add: empty_setup_def)
  ultimately have "exact_scores start s"
    unfolding exact_scores_def disc by blast
  moreover have "entries_ok start goal s"
    by (simp add: entries_ok_def heap sel disc)
  moreover have "counted 0 s"
    by (simp add: counted_def heap disc)
  ultimately have "bfs_inv start goal 0 s"
    unfolding bfs_inv_def by (simp add: heap sel not_closed in_rect_start)
  then show ?thesis by (simp add: s_def)
qed

lemma iterations_bounded:
  assumes "exact_scores start s" "counted iterations s" "open_set s \<noteq> []"
  shows "real iterations < max_iterations"
proof -
  have "card {c. discovered s c} \<le> card {c. in_grid c}"
    using exact_scoresD(2) [OF assms(1)] by (intro card_mono finite_in_grid) blast
  then have "count s + 1 \<le> 6400"
    using assms(2) by (simp add: counted_def card_in_grid)
  moreover have "1 \<le> length (open_set s)"
    using assms(3) by (cases "open_set s") simp_all
  moreover have "iterations + length (open_set s) = count s + 1"
    using assms(2) by (simp add: counted_def)
  ultimately have "iterations < 6400"
    by linarith
  then show ?thesis
    by (simp add: max_iterations_def GRID_DIMENSION_def)
qed

lemma astar_loop_bfs:
  assumes "empty_setup g start goal" "planner_inv g start s" "bfs_inv start goal iterations s"
  shows "\<exists>s'. astar_loop g goal iterations s = Inr s' \<and> planner_inv g start s'
     \<and> path_found s' \<and> (goal = start \<or> came_from s' goal \<noteq> None)
     \<and> g_score s' goal = enat (heuristic start goal)"
  using assms
proof (induction g goal iterations s rule: astar_loop.induct)
  case (1 g goal iterations s)
  note emp = "1.prems"(1) and pinv = "1.prems"(2) and inv = "1.prems"(3)
  note b = bfs_invD [OF inv]
  have nonempty: "open_set s \<noteq> []"
    using b(8) by auto
  have go: "open_set s \<noteq> [] \<and> real iterations < max_iterations"
    using nonempty iterations_bounded [OF b(1) b(9) nonempty] by simp
  obtain m where "heappop (open_set s) = Some (m, remove1 m (open_set s))"
    using heappop_nonempty [OF nonempty] by blast
  then obtain f k cur rest where pop: "heappop (open_set s) = Some ((f, k, cur), rest)"
    by (cases m) auto
  note p = pop_inv [OF pinv pop]
  note q = pop_bfs [OF emp pinv inv pop]
  define s1 where "s1 = s\<lparr> open_set := rest, open_set_hash := open_set_hash s - {cur} \<rparr>"
  show ?case
  proof (cases "cur = goal")
    case True
    have "astar_loop g goal iterations s = Inr (s1\<lparr> path_found := True \<rparr>)"
      using astar_loop_goal [OF go pop p(1) True] by (simp add: s1_def)
    moreover have "planner_inv g start (s1\<lparr> path_found := True \<rparr>)"
      using p(2) by (simp add: planner_inv_def s1_def)
    ultimately show ?thesis
      using p(3) q(2) True by (simp add: s1_def)
  next
    case False
    define s2 where "s2 = foldl (explore_neighbor g goal cur) s1 neighbor_offsets"
    have eq: "astar_loop g goal iterations s = astar_loop g goal (iterations + 1) s2"
      using astar_loop_expand [OF go pop p(1) False] by (simp add: s1_def s2_def)
    have reach1: "cur = start \<or> came_from s1 cur \<noteq> None"
      using p(3) by (simp add: s1_def)
    have pinv1: "planner_inv g start s1"
      using p(2) by (simp add: s1_def)
    have mid1: "mid_inv start goal iterations cur {} s1"
      using q(3) by (simp add: s1_def)
    have inv2: "planner_inv g start s2"
      unfolding s2_def using foldl_explore_inv [OF pinv1 reach1 subset_refl] by simp
    have mid2: "mid_inv start goal iterations cur
           ({} \<union> (\<lambda>d. (fst cur + fst d, snd cur + snd d)) ` set neighbor_offsets) s2"
      unfolding s2_def by (rule foldl_explore_mid [OF emp pinv1 reach1 mid1 subset_refl])
    have bfs2: "bfs_inv start goal (iterations + 1) s2"
    proof (rule finish_expansion [OF emp inv2 mid2 _ False])
      fix n assume "adjacent cur n"
      then show "n \<in> {} \<union> (\<lambda>d. (fst cur + fst d, snd cur + snd d)) ` set neighbor_offsets"
        using adjacent_offset [of cur n] by auto
    qed
    show ?thesis
      unfolding eq s2_def s1_def
      by (rule "1.IH" [OF go pop refl refl refl _ refl False])
         (use p(1) emp inv2 bfs2 in \<open>simp_all add: s1_def s2_def\<close>)
  qed
qed

subsection \<open>Length of the returned path\<close>

lemma reconstruct_length:
  assumes inv: "planner_inv g start s"
    and reach: "c = start \<or> came_from s c \<noteq> None"
  shows "\<exists>ks. reconstruct (came_from s) c acc = Some (acc @ ks)
     \<and> enat (length ks) \<le> g_score s c"
  using reach
proof (induction c arbitrary: acc rule: measure_induct_rule [where f = "g_score s"])
  case (less c)
  show ?case
  proof (cases "came_from s c")
    case None
    have "reconstruct (came_from s) c acc = Some acc"
      using None by (subst reconstruct.simps) simp
    then show ?thesis by (simp add: zero_enat_def [symmetric])
  next
    case (Some p)
    have step: "reconstruct (came_from s) c acc = reconstruct (came_from s) p (acc @ [c])"
      using Some by (subst reconstruct.simps) simp
    have lt: "g_score s p < g_score s c" and rp: "p = start \<or> came_from s p \<noteq> None"
      using planner_invD(6,7) [OF inv Some] by simp_all
    from less.IH [OF lt rp, of "acc @ [c]"]
    obtain ks where ks: "reconstruct (came_from s) p (acc @ [c]) = Some ((acc @ [c]) @ ks)"
      "enat (length ks) \<le> g_score s p"
      by blast
    have "enat (length ks) < g_score s c"
      using ks(2) lt by simp
    then have "eSuc (enat (length ks)) \<le> g_score s c"
      by (rule ileI1)
    then have "enat (length (c # ks)) \<le> g_score s c"
      by (simp add: eSuc_enat)
    then show ?thesis
      using step ks(1) by (intro exI [of _ "c # ks"]) simp
  qed
qed

lemma in_grid_center: "in_grid current_logical_robot_cell_on_path"
  by (simp add: center_cell in_grid_def GRID_DIMENSION_def)

lemma heuristic_center:
  "heuristic current_logical_robot_cell_on_path goal
     = nat \<bar>fst goal - grid_center_y_cell\<bar> + nat \<bar>snd goal - grid_center_x_cell\<bar>"
  by (simp add: heuristic_def current_logical_robot_cell_on_path_def abs_minus_commute)

lemma plan_path_empty:
  fixes g goal
  defines "start \<equiv> current_logical_robot_cell_on_path"
  assumes emp: "empty_setup g start goal"
  shows "\<exists>path. plan_path g (Some goal) = Some (Planning_succeeded path)
     \<and> length path = heuristic start goal"
proof -
  have clear: "is_valid_and_clear g goal"
    using emp empty_clear [OF emp, of goal] by (simp add: empty_setup_def)
  from astar_loop_bfs [OF emp astar_init_inv astar_init_bfs [OF emp]]
  obtain s' where s': "astar_loop g goal 0 (astar_init start goal) = Inr s'"
    "planner_inv g start s'" "path_found s'" "goal = start \<or> came_from s' goal \<noteq> None"
    "g_score s' goal = enat (heuristic start goal)"
    by blast
  from reconstruct_route [OF s'(2,4), of "[]"]
  obtain ks where ks: "reconstruct (came_from s') goal [] = Some ks"
    "walk start (rev ks)" "\<forall>x \<in> set ks. is_valid_and_clear g x \<and> x \<noteq> start"
    "last (start # rev ks) = goal"
    by auto
  from reconstruct_length [OF s'(2,4), of "[]"] ks(1)
  have "enat (length ks) \<le> g_score s' goal" by auto
  then have upper: "length ks \<le> heuristic start goal"
    using s'(5) by simp
  have lower: "heuristic start goal \<le> length ks"
    using walk_length [OF ks(2)] ks(4) by simp
  have "\<not> (rev ks \<noteq> [] \<and> hd (rev ks) = start)"
    using ks(3) hd_in_set [of "rev ks"] by auto
  then have "plan_path g (Some goal) = Some (Planning_succeeded (rev ks))"
    using clear s'(1,3) ks(1) by (auto simp: plan_path_def start_def Let_def)
  then show ?thesis
    using upper lower by simp
qed

text \<open>
  C2. On a grid with no occupied cell (every cell of the grid is below the obstacle
  threshold) the planner succeeds for every goal cell inside the grid, and the path it
  returns, which leaves out the start cell, has exactly \<open>|dr| + |dc|\<close> cells, where
  \<open>(dr, dc)\<close> is the offset of the goal from the grid centre.
\<close>

theorem planner_optimal_on_empty_grid:
  assumes "\<forall>c. in_grid c \<longrightarrow> g c < RENDER_THRESHOLD" and "in_grid goal"
  shows "\<exists>path. plan_path g (Some goal) = Some (Planning_succeeded path)
     \<and> length path = nat \<bar>fst goal - grid_center_y_cell\<bar> + nat \<bar>snd goal - grid_center_x_cell\<bar>"
proof -
  have "empty_setup g current_logical_robot_cell_on_path goal"
    using assms in_grid_center by (simp add: empty_setup_def)
  from plan_path_empty [OF this] show ?thesis
    by (simp add: heuristic_center)
qed

theorem planner_optimal_on_empty_grid_witness:
  "in_grid (37, 42)
   \<and> (\<exists>path. plan_path zero_grid (Some (37, 42)) = Some (Planning_succeeded path)
         \<and> length path = 5)"
  using planner_optimal_on_empty_grid [of zero_grid "(37, 42)"]
  by (simp add: zero_grid_def in_grid_def RENDER_THRESHOLD_def GRID_DIMENSION_def
      grid_center_x_cell_def grid_center_y_cell_def)

end
